theory Spec2Isabelle
  imports Complex_Main "HOL-Library.AList" "HOL-Library.Char_ord" "HOL-Library.List_Lexorder"
    "HOL-Library.Log_Nat"
begin

section \<open>Data model\<close>

text \<open>
  The layout constants set in the \<^verbatim>\<open>TreeView\<close> constructor. JavaScript numbers are
  modelled as exact rationals: the layout only adds, subtracts, halves and averages
  small integers.
\<close>

definition nodeWidth :: rat where "nodeWidth = 180"
definition nodeHeight :: rat where "nodeHeight = 80"
definition horizontalGap :: rat where "horizontalGap = 40"
definition generationGap :: rat where "generationGap = 150"

text \<open>
  A split-link record \<^verbatim>\<open>{type, linkedPersonId, ghostContext}\<close> and a person. The three
  arrays of \<^verbatim>\<open>person.relationships\<close> are the fields \<open>parents\<close>, \<open>children\<close> and
  \<open>partners\<close>. An absent or empty \<^verbatim>\<open>birthDate\<close> is the empty string (both are falsy).
\<close>

record splitLink =
  linkType :: string
  linkedPersonId :: string
  ghostContext :: string

record person =
  pid :: string
  gender :: string
  birthDate :: string
  parents :: "string list"
  children :: "string list"
  partners :: "string list"
  splitLinks :: "splitLink list"

record position =
  posX :: rat
  posY :: rat

text \<open>
  \<^verbatim>\<open>new Map(people.map(p => [p.id, p]))\<close>: only \<^verbatim>\<open>get\<close> is ever called on it, and a
  later entry with the same id replaces an earlier one.
\<close>

definition personMap :: "person list \<Rightarrow> string \<Rightarrow> person option" where
  "personMap people = map_of (rev (map (\<lambda>p. (pid p, p)) people))"

text \<open>
  A JavaScript \<^verbatim>\<open>Set\<close> of ids in insertion order is a duplicate-free list;
  \<open>setAdd\<close> is \<^verbatim>\<open>Set.prototype.add\<close> and \<open>newSet\<close> is \<^verbatim>\<open>new Set(array)\<close>.
\<close>

definition setAdd :: "'a list \<Rightarrow> 'a \<Rightarrow> 'a list" where
  "setAdd s a = (if a \<in> set s then s else s @ [a])"

definition newSet :: "'a list \<Rightarrow> 'a list" where
  "newSet xs = foldl setAdd [] xs"

text \<open>
  \<^verbatim>\<open>Array.prototype.sort\<close> with a comparator, as a stable insertion sort. For a comparator
  that is a total preorder every stable sort returns this list; a \<^verbatim>\<open>NaN\<close> from the
  comparator counts as 0 and is written so in the comparators below.
\<close>

fun insertBy :: "('a \<Rightarrow> 'a \<Rightarrow> rat) \<Rightarrow> 'a \<Rightarrow> 'a list \<Rightarrow> 'a list" where
  "insertBy cmp a [] = [a]"
| "insertBy cmp a (b # bs) = (if cmp a b > 0 then b # insertBy cmp a bs else a # b # bs)"

definition jsSort :: "('a \<Rightarrow> 'a \<Rightarrow> rat) \<Rightarrow> 'a list \<Rightarrow> 'a list" where
  "jsSort cmp xs = foldr (insertBy cmp) xs []"

section \<open>Subtree builder (\<^verbatim>\<open>getFullPartners\<close>, \<^verbatim>\<open>buildTree\<close>)\<close>

datatype layoutNode =
  LayoutNode (nperson: person) (npartners: "person list") (nchildren: "layoutNode list")
             (coupleWidth: rat) (totalWidth: rat)

definition getFullPartners :: "(string \<Rightarrow> person option) \<Rightarrow> person \<Rightarrow> person list" where
  "getFullPartners pm p =
     (let ps = foldl (\<lambda>acc cid. case pm cid of
                         None \<Rightarrow> acc
                       | Some child \<Rightarrow>
                           foldl (\<lambda>acc' i. if i \<noteq> pid p then setAdd acc' i else acc') acc (parents child))
                     (newSet (partners p)) (children p)
      in List.map_filter pm ps)"

definition checkPartner :: "person \<Rightarrow> bool" where
  "checkPartner p \<longleftrightarrow>
     partners p \<noteq> [] \<or>
     list_ex (\<lambda>l. linkType l = ''partner'' \<or> ghostContext l = ''partner'') (splitLinks p)"

definition getWeight :: "person \<Rightarrow> bool \<Rightarrow> rat" where
  "getWeight p hasPartner =
     (if \<not> hasPartner then 0
      else if gender p = ''F'' then -1
      else if gender p = ''M'' then 1
      else 0)"

text \<open>
  The comparator of the children sort. The parameter \<open>D\<close> is the runtime's date parser:
  \<open>D s\<close> is the time value of \<^verbatim>\<open>new Date(s)\<close>, or \<open>None\<close> for an invalid date, whose
  difference is \<^verbatim>\<open>NaN\<close>.
\<close>

definition childCmp :: "(string \<Rightarrow> rat option) \<Rightarrow> (string \<Rightarrow> person option) \<Rightarrow> string \<Rightarrow> string \<Rightarrow> rat" where
  "childCmp D pm a b =
     (case (pm a, pm b) of
        (Some pA, Some pB) \<Rightarrow>
          (let weightA = getWeight pA (checkPartner pA);
               weightB = getWeight pB (checkPartner pB)
           in if weightA \<noteq> weightB then weightA - weightB
              else if birthDate pA \<noteq> [] \<and> birthDate pB \<noteq> [] then
                (case (D (birthDate pA), D (birthDate pB)) of
                   (Some u, Some v) \<Rightarrow> u - v
                 | _ \<Rightarrow> 0)
              else 0)
      | _ \<Rightarrow> 0)"

definition childIdsOf :: "person \<Rightarrow> person list \<Rightarrow> string list" where
  "childIdsOf p ps = foldl (\<lambda>acc q. foldl setAdd acc (children q)) (foldl setAdd [] (children p)) ps"

definition childrenWidth :: "layoutNode list \<Rightarrow> rat" where
  "childrenWidth kids =
     foldl (\<lambda>s c. s + totalWidth c) 0 kids + max 0 (of_nat (length kids) - 1) * horizontalGap"

text \<open>
  \<open>buildTree\<close> recurses through the children while it updates the shared \<open>visited\<close> set;
  the set is passed in and returned. The first argument bounds the depth of the
  recursion: \<open>None\<close> means the bound was reached, \<open>Some (None, v)\<close> is the source's
  \<^verbatim>\<open>return null\<close>. \<open>buildChildren\<close> is the \<^verbatim>\<open>sortedChildIds.forEach\<close> loop.
\<close>

fun buildTree :: "nat \<Rightarrow> (string \<Rightarrow> rat option) \<Rightarrow> (string \<Rightarrow> person option) \<Rightarrow> string set \<Rightarrow> string
                  \<Rightarrow> (layoutNode option \<times> string set) option"
and buildChildren :: "nat \<Rightarrow> (string \<Rightarrow> rat option) \<Rightarrow> (string \<Rightarrow> person option) \<Rightarrow> string set \<Rightarrow> string list
                  \<Rightarrow> (layoutNode list \<times> string set) option"
where
  "buildTree 0 D pm visited personId = None"
| "buildTree (Suc n) D pm visited personId =
     (if personId \<in> visited then Some (None, visited)
      else
        let visited1 = insert personId visited in
        case pm personId of
          None \<Rightarrow> Some (None, visited1)
        | Some p \<Rightarrow>
            let ps = filter (\<lambda>q. pid q \<notin> visited1) (getFullPartners pm p);
                visited2 = foldl (\<lambda>v q. insert (pid q) v) visited1 ps;
                couplesCount = 1 + of_nat (length ps);
                cw = couplesCount * nodeWidth + (couplesCount - 1) * horizontalGap;
                sortedChildIds = jsSort (childCmp D pm) (childIdsOf p ps)
            in case buildChildren n D pm visited2 sortedChildIds of
                 None \<Rightarrow> None
               | Some (kids, visited3) \<Rightarrow>
                   Some (Some (LayoutNode p ps kids cw (max cw (childrenWidth kids))), visited3))"
| "buildChildren n D pm visited [] = Some ([], visited)"
| "buildChildren n D pm visited (cid # cids) =
     (case buildTree n D pm visited cid of
        None \<Rightarrow> None
      | Some (r, visited') \<Rightarrow>
          (case buildChildren n D pm visited' cids of
             None \<Rightarrow> None
           | Some (rs, visited'') \<Rightarrow>
               Some ((case r of None \<Rightarrow> rs | Some nd \<Rightarrow> nd # rs), visited'')))"


fun allNodes :: "layoutNode \<Rightarrow> layoutNode list" where
  "allNodes (LayoutNode p ps kids cw tw) = LayoutNode p ps kids cw tw # concat (map allNodes kids)"

section \<open>Ghost positions (\<^verbatim>\<open>renderGhostNodes\<close>)\<close>

text \<open>
  A JavaScript \<^verbatim>\<open>Map\<close> from ids to positions is an association list in insertion
  order: \<open>map_of\<close> is \<^verbatim>\<open>get\<close> and \<open>AList.update\<close> is \<^verbatim>\<open>set\<close>.
  An entry of \<^verbatim>\<open>ghostPositions\<close>: the coordinates stay \<^verbatim>\<open>undefined\<close> (\<open>None\<close>)
  when the split type is none of the three known ones.
\<close>

record ghost =
  gperson :: person
  ghostX :: "rat option"
  ghostY :: "rat option"
  linkedPerson :: person
  splitType :: string

definition ghostXY :: "string \<Rightarrow> position \<Rightarrow> rat option \<times> rat option" where
  "ghostXY t linkedPos =
     (if t = ''parent'' then (Some (posX linkedPos), Some (posY linkedPos + generationGap))
      else if t = ''partner'' then (Some (posX linkedPos + nodeWidth + horizontalGap), Some (posY linkedPos))
      else if t = ''child'' then (Some (posX linkedPos), Some (posY linkedPos - generationGap))
      else (None, None))"

definition ghostOf :: "(string \<Rightarrow> person option) \<Rightarrow> (string \<times> position) list \<Rightarrow> person \<Rightarrow> splitLink \<Rightarrow> ghost option" where
  "ghostOf pm positions p split =
     (case pm (linkedPersonId split) of
        None \<Rightarrow> None
      | Some lp \<Rightarrow>
          (case map_of positions (linkedPersonId split) of
             None \<Rightarrow> None
           | Some linkedPos \<Rightarrow>
               Some \<lparr>gperson = p,
                     ghostX = fst (ghostXY (linkType split) linkedPos),
                     ghostY = snd (ghostXY (linkType split) linkedPos),
                     linkedPerson = lp,
                     splitType = linkType split\<rparr>))"

definition ghostPositions :: "person list \<Rightarrow> (string \<times> position) list \<Rightarrow> ghost list" where
  "ghostPositions people positions =
     concat (map (\<lambda>p. List.map_filter (ghostOf (personMap people) positions p) (splitLinks p)) people)"

section \<open>Relationship repair before layout (\<^verbatim>\<open>calculateLayout\<close>, pre-processing)\<close>

text \<open>
  The pass mutates the person objects of the \<^verbatim>\<open>people\<close> array in place, reaching them
  through \<^verbatim>\<open>personMap\<close>. The state is the array itself; an object is addressed by its
  index, and \<open>personIndex\<close> gives the index of the object that \<^verbatim>\<open>personMap.get\<close>
  returns (the last one with that id).
\<close>

definition personIndex :: "person list \<Rightarrow> string \<Rightarrow> nat option" where
  "personIndex people = map_of (rev (zip (map pid people) [0..<length people]))"

definition ensureParent :: "(string \<Rightarrow> nat option) \<Rightarrow> string \<Rightarrow> person list \<Rightarrow> string \<Rightarrow> person list" where
  "ensureParent ix me st childId =
     (case ix childId of
        None \<Rightarrow> st
      | Some j \<Rightarrow>
          if me \<in> set (parents (st ! j)) then st
          else st[j := (st ! j)\<lparr>parents := parents (st ! j) @ [me]\<rparr>])"

definition ensureChild :: "(string \<Rightarrow> nat option) \<Rightarrow> string \<Rightarrow> person list \<Rightarrow> string \<Rightarrow> person list" where
  "ensureChild ix me st parentId =
     (case ix parentId of
        None \<Rightarrow> st
      | Some j \<Rightarrow>
          if me \<in> set (children (st ! j)) then st
          else st[j := (st ! j)\<lparr>children := children (st ! j) @ [me]\<rparr>])"

definition repairPerson :: "(string \<Rightarrow> nat option) \<Rightarrow> person list \<Rightarrow> nat \<Rightarrow> person list" where
  "repairPerson ix st i =
     (let st1 = foldl (ensureParent ix (pid (st ! i))) st (children (st ! i))
      in foldl (ensureChild ix (pid (st ! i))) st1 (parents (st1 ! i)))"

definition repairLinks :: "person list \<Rightarrow> person list" where
  "repairLinks people = foldl (repairPerson (personIndex people)) people [0..<length people]"

section \<open>Generation assignment\<close>

text \<open>
  The \<^verbatim>\<open>generations\<close> map is an association list in insertion order. \<open>visitAll\<close> is
  one of the three \<^verbatim>\<open>forEach\<close> loops of the wave: an id without a generation gets
  \<open>g\<close> and joins the queue.
\<close>

type_synonym genmap = "(string \<times> int) list"

definition visitAll :: "int \<Rightarrow> string list \<Rightarrow> (string \<times> int) list \<times> genmap \<Rightarrow> (string \<times> int) list \<times> genmap" where
  "visitAll g ids s =
     foldl (\<lambda>(queue, gens) i.
              if map_of gens i = None then (queue @ [(i, g)], AList.update i g gens)
              else (queue, gens)) s ids"

definition wavePartners :: "(string \<Rightarrow> person option) \<Rightarrow> string \<Rightarrow> person \<Rightarrow> string list" where
  "wavePartners pm i p =
     foldl (\<lambda>acc cid. case pm cid of
                None \<Rightarrow> acc
              | Some child \<Rightarrow> foldl (\<lambda>acc' j. if j \<noteq> i then setAdd acc' j else acc') acc (parents child))
           (newSet (partners p)) (children p)"

definition waveStep :: "person list \<Rightarrow> string \<Rightarrow> int \<Rightarrow> (string \<times> int) list \<times> genmap \<Rightarrow> (string \<times> int) list \<times> genmap" where
  "waveStep people i g s =
     (case personMap people i of
        None \<Rightarrow> s
      | Some p \<Rightarrow>
          visitAll (g - 1) (parents p)
            (visitAll (g + 1) (children p)
               (visitAll g (wavePartners (personMap people) i p) s)))"

text \<open>All ids that the relationship arrays of the people mention.\<close>

definition mentioned :: "person list \<Rightarrow> string set" where
  "mentioned people = (\<Union>p\<in>set people. set (parents p) \<union> set (children p) \<union> set (partners p))"

function wave :: "person list \<Rightarrow> (string \<times> int) list \<Rightarrow> genmap \<Rightarrow> genmap" where
  "wave people [] gens = gens"
| "wave people ((i, g) # queue) gens =
     (case waveStep people i g (queue, gens) of (queue', gens') \<Rightarrow> wave people queue' gens')"
  by pat_completeness auto

definition seedGeneration :: "person list \<Rightarrow> genmap \<Rightarrow> person \<Rightarrow> genmap" where
  "seedGeneration people gens seed =
     (if map_of gens (pid seed) \<noteq> None then gens
      else wave people [(pid seed, 0)] (AList.update (pid seed) 0 gens))"

definition rawGenerations :: "person list \<Rightarrow> genmap" where
  "rawGenerations people = foldl (seedGeneration people) [] people"

text \<open>\<open>None\<close> is the initial \<^verbatim>\<open>Infinity\<close> of \<^verbatim>\<open>minGen\<close>.\<close>

definition minGen :: "genmap \<Rightarrow> int option" where
  "minGen gens = foldl (\<lambda>m (i, g). case m of None \<Rightarrow> Some g | Some m' \<Rightarrow> Some (min m' g)) None gens"

definition normalizeGenerations :: "genmap \<Rightarrow> genmap" where
  "normalizeGenerations gens =
     (case minGen gens of
        None \<Rightarrow> gens
      | Some m \<Rightarrow> if m \<noteq> 0 then map (\<lambda>(i, g). (i, g - m)) gens else gens)"

definition generations :: "person list \<Rightarrow> genmap" where
  "generations people = normalizeGenerations (rawGenerations people)"

subsection \<open>Termination of the wave\<close>

lemma setAdd_set: "set (setAdd s a) = insert a (set s)"
  by (auto simp: setAdd_def)

lemma foldl_setAdd_set: "set (foldl setAdd s xs) = set s \<union> set xs"
  by (induction xs arbitrary: s) (auto simp: setAdd_set)

lemma newSet_set: "set (newSet xs) = set xs"
  by (simp add: newSet_def foldl_setAdd_set)

lemma personMap_SomeD: "personMap people i = Some p \<Longrightarrow> p \<in> set people \<and> pid p = i"
  by (auto simp: personMap_def dest!: map_of_SomeD)

lemma keys_update: "fst ` set (AList.update k v al) = insert k (fst ` set al)"
  by (induction al) auto

lemma map_of_None_keys: "map_of al k = None \<longleftrightarrow> k \<notin> fst ` set al"
  by (simp add: map_of_eq_None_iff)

lemma visitAll_keys: "fst ` set (snd (visitAll g ids s)) = fst ` set (snd s) \<union> set ids"
proof (induction ids arbitrary: s)
  case Nil
  show ?case by (simp add: visitAll_def)
next
  case (Cons a ids)
  obtain q gens where s: "s = (q, gens)" by (cases s)
  have step: "visitAll g (a # ids) s =
          visitAll g ids (if map_of gens a = None then (q @ [(a, g)], AList.update a g gens) else (q, gens))"
    by (simp add: visitAll_def s)
  show ?case
    unfolding step Cons.IH
    by (auto simp: s keys_update map_of_None_keys)
qed

lemma visitAll_id: "set ids \<subseteq> fst ` set (snd s) \<Longrightarrow> visitAll g ids s = s"
proof (induction ids)
  case Nil
  show ?case by (simp add: visitAll_def)
next
  case (Cons a ids)
  obtain q gens where s: "s = (q, gens)" by (cases s)
  from Cons.prems have "map_of gens a \<noteq> None"
    by (simp add: s map_of_None_keys)
  then have "visitAll g (a # ids) s = visitAll g ids s"
    by (auto simp: visitAll_def s)
  with Cons show ?case by simp
qed

lemma inner_partners_set:
  "set (foldl (\<lambda>acc' j. if j \<noteq> i then setAdd acc' j else acc') acc xs) \<subseteq> set acc \<union> set xs"
proof (induction xs arbitrary: acc)
  case Nil
  show ?case by simp
next
  case (Cons a xs)
  have "set (if a \<noteq> i then setAdd acc a else acc) \<subseteq> insert a (set acc)"
    by (auto simp: setAdd_set)
  with Cons[of "if a \<noteq> i then setAdd acc a else acc"] show ?case
    by auto
qed

lemma wavePartners_fold_mentioned:
  assumes "\<And>c child. pm c = Some child \<Longrightarrow> set (parents child) \<subseteq> M"
  shows "set acc \<subseteq> M \<Longrightarrow>
         set (foldl (\<lambda>acc cid. case pm cid of
                None \<Rightarrow> acc
              | Some child \<Rightarrow> foldl (\<lambda>acc' j. if j \<noteq> i then setAdd acc' j else acc') acc (parents child))
           acc cs) \<subseteq> M"
proof (induction cs arbitrary: acc)
  case Nil
  then show ?case by simp
next
  case (Cons c cs)
  show ?case
  proof (cases "pm c")
    case None
    then show ?thesis using Cons by simp
  next
    case (Some child)
    have "set (foldl (\<lambda>acc' j. if j \<noteq> i then setAdd acc' j else acc') acc (parents child)) \<subseteq> M"
      using inner_partners_set[of i acc "parents child"] Cons.prems assms[OF Some] by blast
    then show ?thesis using Cons.IH Some by simp
  qed
qed

lemma mentionedI:
  "p \<in> set people \<Longrightarrow> set (parents p) \<union> set (children p) \<union> set (partners p) \<subseteq> mentioned people"
  by (auto simp: mentioned_def)

lemma wavePartners_mentioned:
  assumes "p \<in> set people"
  shows "set (wavePartners (personMap people) i p) \<subseteq> mentioned people"
  unfolding wavePartners_def
proof (rule wavePartners_fold_mentioned)
  fix c child assume "personMap people c = Some child"
  then have "child \<in> set people" by (simp add: personMap_SomeD)
  then show "set (parents child) \<subseteq> mentioned people" using mentionedI by blast
next
  show "set (newSet (partners p)) \<subseteq> mentioned people"
    using mentionedI[OF assms] by (simp add: newSet_set)
qed

lemma waveStep_keys:
  "\<exists>N. N \<subseteq> mentioned people \<and>
       fst ` set (snd (waveStep people i g s)) = fst ` set (snd s) \<union> N"
proof (cases "personMap people i")
  case None
  then show ?thesis by (auto simp: waveStep_def)
next
  case (Some p)
  then have p: "p \<in> set people" by (simp add: personMap_SomeD)
  let ?N = "set (wavePartners (personMap people) i p) \<union> set (children p) \<union> set (parents p)"
  have "?N \<subseteq> mentioned people"
    using wavePartners_mentioned[OF p] mentionedI[OF p] by blast
  moreover have "fst ` set (snd (waveStep people i g s)) = fst ` set (snd s) \<union> ?N"
    by (simp add: waveStep_def Some visitAll_keys Un_assoc)
  ultimately show ?thesis by blast
qed

lemma waveStep_id:
  assumes "fst ` set (snd (waveStep people i g s)) = fst ` set (snd s)"
  shows "waveStep people i g s = s"
proof (cases "personMap people i")
  case None
  then show ?thesis by (simp add: waveStep_def)
next
  case (Some p)
  from assms have sub: "set (wavePartners (personMap people) i p) \<subseteq> fst ` set (snd s)"
      "set (children p) \<subseteq> fst ` set (snd s)" "set (parents p) \<subseteq> fst ` set (snd s)"
    by (auto simp: waveStep_def Some visitAll_keys)
  show ?thesis
    by (simp add: waveStep_def Some visitAll_id sub)
qed

lemma finite_mentioned: "finite (mentioned people)"
  by (simp add: mentioned_def)


lemma wave_decreases:
  assumes st: "waveStep people i g (queue, gens) = (queue', gens')"
  shows "((people, queue', gens'), (people, (i, g) # queue, gens))
          \<in> inv_image (less_than <*lex*> less_than)
               (\<lambda>(people, queue, gens). (card (mentioned people - fst ` set gens), length queue))"
proof -
  from waveStep_keys[of people i g "(queue, gens)"] obtain N where
    N0: "N \<subseteq> mentioned people"
      "fst ` set (snd (waveStep people i g (queue, gens))) = fst ` set (snd (queue, gens)) \<union> N"
    by blast
  have N: "fst ` set gens' = fst ` set gens \<union> N"
    using N0(2) unfolding st by simp
  show ?thesis
  proof (cases "fst ` set gens' = fst ` set gens")
    case True
    then have "waveStep people i g (queue, gens) = (queue, gens)"
      by (intro waveStep_id) (simp add: st)
    with st have "queue' = queue" "gens' = gens" by simp_all
    then show ?thesis by simp
  next
    case False
    then have "\<not> N \<subseteq> fst ` set gens" unfolding N by auto
    then obtain k where k: "k \<in> N" "k \<notin> fst ` set gens" by auto
    have "k \<in> mentioned people - fst ` set gens" "k \<notin> mentioned people - fst ` set gens'"
      using k N0(1) unfolding N by auto
    moreover have "mentioned people - fst ` set gens' \<subseteq> mentioned people - fst ` set gens"
      unfolding N by auto
    ultimately have "mentioned people - fst ` set gens' \<subset> mentioned people - fst ` set gens"
      by auto
    then have "card (mentioned people - fst ` set gens') < card (mentioned people - fst ` set gens)"
      by (intro psubset_card_mono) (simp_all add: finite_mentioned)
    then show ?thesis by simp
  qed
qed


termination wave
proof (relation "inv_image (less_than <*lex*> less_than)
                   (\<lambda>(people, queue, gens). (card (mentioned people - fst ` set gens), length queue))")
  show "wf (inv_image (less_than <*lex*> less_than)
             (\<lambda>(people, queue, gens). (card (mentioned people - fst ` set gens), length queue)))"
    by (intro wf_inv_image wf_lex_prod wf_less_than)
qed (rule wave_decreases, simp)

declare wave.simps [simp del]

section \<open>Root discovery and clustering\<close>

text \<open>
  A loop whose body may not return: \<open>None\<close> from the body ends the loop with \<open>None\<close>.
\<close>

fun foldOpt :: "('s \<Rightarrow> 'a \<Rightarrow> 's option) \<Rightarrow> 's \<Rightarrow> 'a list \<Rightarrow> 's option" where
  "foldOpt f s [] = Some s"
| "foldOpt f s (a # as) = (case f s a of None \<Rightarrow> None | Some s' \<Rightarrow> foldOpt f s' as)"

text \<open>
  \<^verbatim>\<open>getDescendants\<close> walks the children with a shared \<^verbatim>\<open>visited\<close> set, which is
  also its result. The first argument bounds the depth of the recursion, as in
  \<open>buildTree\<close>.
\<close>

fun getDescendants :: "nat \<Rightarrow> (string \<Rightarrow> person option) \<Rightarrow> string \<Rightarrow> string set \<Rightarrow> string set option"
and getDescendantsList :: "nat \<Rightarrow> (string \<Rightarrow> person option) \<Rightarrow> string list \<Rightarrow> string set \<Rightarrow> string set option"
where
  "getDescendants 0 pm personId visited = None"
| "getDescendants (Suc n) pm personId visited =
     (if personId \<in> visited then Some visited
      else case pm personId of
             None \<Rightarrow> Some (insert personId visited)
           | Some p \<Rightarrow> getDescendantsList n pm (children p) (insert personId visited))"
| "getDescendantsList n pm [] visited = Some visited"
| "getDescendantsList n pm (cid # cids) visited =
     (case getDescendants n pm cid visited of
        None \<Rightarrow> None
      | Some visited' \<Rightarrow> getDescendantsList n pm cids visited')"

text \<open>
  \<^verbatim>\<open>(a.birthDate || '').localeCompare(b.birthDate || '')\<close>, with the comparison of
  strings by character code, which is the order of the ISO dates the application stores.
\<close>

definition birthCmp :: "person \<Rightarrow> person \<Rightarrow> rat" where
  "birthCmp a b = (if birthDate a < birthDate b then -1 else if birthDate a = birthDate b then 0 else 1)"

definition joinCluster :: "nat \<Rightarrow> (string \<Rightarrow> person option) \<Rightarrow> string set
    \<Rightarrow> person list \<times> string set \<Rightarrow> person \<Rightarrow> (person list \<times> string set) option" where
  "joinCluster fuel pm rootDescendants s otherRoot =
     (case s of (cluster, assignedRoots) \<Rightarrow>
        if pid otherRoot \<in> assignedRoots then Some s
        else case getDescendants fuel pm (pid otherRoot) {} of
               None \<Rightarrow> None
             | Some otherDescendants \<Rightarrow>
                 if rootDescendants \<inter> otherDescendants \<noteq> {}
                 then Some (cluster @ [otherRoot], insert (pid otherRoot) assignedRoots)
                 else Some s)"

definition makeCluster :: "nat \<Rightarrow> (string \<Rightarrow> person option) \<Rightarrow> person list
    \<Rightarrow> person list list \<times> string set \<Rightarrow> person \<Rightarrow> (person list list \<times> string set) option" where
  "makeCluster fuel pm potentialRoots s r =
     (case s of (rootClusters, assignedRoots) \<Rightarrow>
        if pid r \<in> assignedRoots then Some s
        else case getDescendants fuel pm (pid r) {} of
               None \<Rightarrow> None
             | Some rootDescendants \<Rightarrow>
                 (case foldOpt (joinCluster fuel pm rootDescendants)
                         ([r], insert (pid r) assignedRoots) potentialRoots of
                    None \<Rightarrow> None
                  | Some (cluster, assignedRoots') \<Rightarrow>
                      Some (rootClusters @ [jsSort birthCmp cluster], assignedRoots')))"

definition rootClusters :: "nat \<Rightarrow> (string \<Rightarrow> person option) \<Rightarrow> person list \<Rightarrow> person list list option" where
  "rootClusters fuel pm potentialRoots =
     map_option fst (foldOpt (makeCluster fuel pm potentialRoots) ([], {}) potentialRoots)"

definition buildRoot :: "nat \<Rightarrow> (string \<Rightarrow> rat option) \<Rightarrow> (string \<Rightarrow> person option)
    \<Rightarrow> layoutNode list \<times> string set \<Rightarrow> person \<Rightarrow> (layoutNode list \<times> string set) option" where
  "buildRoot fuel D pm s p =
     (case s of (roots, visited) \<Rightarrow>
        if pid p \<notin> visited then
          (case buildTree fuel D pm visited (pid p) of
             None \<Rightarrow> None
           | Some (r, visited') \<Rightarrow> Some ((case r of None \<Rightarrow> roots | Some nd \<Rightarrow> roots @ [nd]), visited'))
        else Some s)"

definition buildRoots :: "nat \<Rightarrow> (string \<Rightarrow> rat option) \<Rightarrow> (string \<Rightarrow> person option)
    \<Rightarrow> person list \<Rightarrow> (layoutNode list \<times> string set) option" where
  "buildRoots fuel D pm ps = foldOpt (buildRoot fuel D pm) ([], {}) ps"

section \<open>Relative positions and anchors\<close>

type_synonym posmap = "(string \<times> position) list"

definition placePartners :: "rat \<Rightarrow> rat \<Rightarrow> person list \<Rightarrow> posmap \<Rightarrow> posmap" where
  "placePartners currentPartnerX y ps m =
     fst (foldl (\<lambda>(m', cx) q. (AList.update (pid q) \<lparr>posX = cx, posY = y\<rparr> m', cx + nodeWidth + horizontalGap))
                (m, currentPartnerX) ps)"

fun calcRelative :: "layoutNode \<Rightarrow> rat \<Rightarrow> rat \<Rightarrow> posmap \<Rightarrow> posmap"
and calcRelativeChildren :: "layoutNode list \<Rightarrow> rat \<Rightarrow> rat \<Rightarrow> posmap \<Rightarrow> posmap"
where
  "calcRelative (LayoutNode p ps kids cw tw) x y m =
     (let coupleX = x + (tw - cw) / 2;
          m1 = AList.update (pid p) \<lparr>posX = coupleX, posY = y\<rparr> m;
          m2 = placePartners (coupleX + nodeWidth + horizontalGap) y ps m1;
          childX = x + (tw - childrenWidth kids) / 2
      in calcRelativeChildren kids childX (y + generationGap) m2)"
| "calcRelativeChildren [] childX y m = m"
| "calcRelativeChildren (c # cs) childX y m =
     calcRelativeChildren cs (childX + totalWidth c + horizontalGap) y (calcRelative c childX y m)"

record rootLayout =
  rootNode :: layoutNode
  relativePositions :: posmap
  width :: rat
  layoutId :: string
  placed :: bool
  finalX :: rat
  anchors :: "string list"

definition makeLayout :: "layoutNode \<Rightarrow> rootLayout" where
  "makeLayout nd =
     \<lparr>rootNode = nd, relativePositions = calcRelative nd 0 0 [], width = totalWidth nd,
      layoutId = pid (nperson nd), placed = False, finalX = 0, anchors = []\<rparr>"

text \<open>
  \<^verbatim>\<open>processedAnchors\<close> always holds exactly the ids pushed to \<^verbatim>\<open>layout.anchors\<close>, so
  the test on it is a test on the list.
\<close>

definition addAnchor :: "posmap \<Rightarrow> string list \<Rightarrow> string \<Rightarrow> string list" where
  "addAnchor rel as i = (if map_of rel i = None \<and> i \<notin> set as then as @ [i] else as)"

definition anchorsOf :: "(string \<Rightarrow> person option) \<Rightarrow> posmap \<Rightarrow> string list" where
  "anchorsOf pm rel =
     foldl (\<lambda>as (personId, _).
              case pm personId of
                None \<Rightarrow> as
              | Some p \<Rightarrow>
                  foldl (addAnchor rel) (foldl (addAnchor rel) (foldl (addAnchor rel) as (children p)) (partners p))
                        (parents p))
           [] rel"

definition identifyAnchors :: "(string \<Rightarrow> person option) \<Rightarrow> rootLayout \<Rightarrow> rootLayout" where
  "identifyAnchors pm layout = layout\<lparr>anchors := anchorsOf pm (relativePositions layout)\<rparr>"

section \<open>Collision probe (\<^verbatim>\<open>checkFit\<close>)\<close>

definition collides :: "rat \<Rightarrow> rat \<Rightarrow> position \<Rightarrow> bool" where
  "collides absX absY placedPos \<longleftrightarrow>
     \<bar>posY placedPos - absY\<bar> < nodeHeight \<and>
     absX < posX placedPos + nodeWidth + horizontalGap \<and>
     absX + nodeWidth + horizontalGap > posX placedPos"

definition checkFit :: "rootLayout \<Rightarrow> rat \<Rightarrow> posmap \<Rightarrow> bool \<times> int" where
  "checkFit layout targetX placedPersonPositions =
     (case foldl (\<lambda>acc (i, relPos).
                    foldl (\<lambda>(pushDir, collisionCount :: nat) (placedId, placedPos).
                             if collides (targetX + posX relPos) (100 + posY relPos) placedPos
                             then (if targetX + posX relPos + nodeWidth / 2 > posX placedPos + nodeWidth / 2
                                   then pushDir + 1 else pushDir - 1,
                                   collisionCount + 1)
                             else (pushDir, collisionCount))
                          acc placedPersonPositions)
                 (0, 0) (relativePositions layout) of
        (pushDir, collisionCount) \<Rightarrow> (collisionCount = 0, pushDir))"

section \<open>Iterative placement\<close>

datatype error = TypeError | DepthBound

record candidate =
  candLayout :: nat
  score :: rat
  desiredX :: "rat option"

text \<open>A candidate refers to its layout object by the index in \<^verbatim>\<open>rootLayouts\<close>.\<close>

definition scoreLayout :: "posmap \<Rightarrow> rootLayout list \<Rightarrow> nat \<Rightarrow> candidate" where
  "scoreLayout placedPersonPositions layouts k =
     (let layout = layouts ! k;
          placedAnchors = List.map_filter (map_of placedPersonPositions) (anchors layout)
      in if length placedAnchors > 0 then
           \<lparr>candLayout = k, score = 10,
            desiredX = Some (foldl (\<lambda>s p. s + posX p) 0 placedAnchors / of_nat (length placedAnchors)
                             - width layout / 2)\<rparr>
         else if length (anchors layout) > 0 then \<lparr>candLayout = k, score = -5, desiredX = None\<rparr>
         else \<lparr>candLayout = k, score = 1, desiredX = None\<rparr>)"

definition candCmp :: "candidate \<Rightarrow> candidate \<Rightarrow> rat" where
  "candCmp a b =
     (if score b \<noteq> score a then score b - score a
      else case (desiredX a, desiredX b) of
             (Some xa, Some xb) \<Rightarrow> xa - xb
           | _ \<Rightarrow> 0)"

function searchFit :: "rootLayout \<Rightarrow> posmap \<Rightarrow> rat \<Rightarrow> rat \<Rightarrow> nat \<Rightarrow> rat option" where
  "searchFit layout placedPersonPositions placeX preferredDir offset =
     (if offset < 4000 then
        (if fst (checkFit layout (placeX + of_nat (offset + 50) * preferredDir) placedPersonPositions)
         then Some (placeX + of_nat (offset + 50) * preferredDir)
         else if offset + 50 > 1500 \<and>
                 fst (checkFit layout (placeX - of_nat (offset + 50) * preferredDir) placedPersonPositions)
         then Some (placeX - of_nat (offset + 50) * preferredDir)
         else searchFit layout placedPersonPositions placeX preferredDir (offset + 50))
      else None)"
  by pat_completeness auto
termination
  by (relation "measure (\<lambda>(layout, placedPersonPositions, placeX, preferredDir, offset). 4000 - offset)") auto

declare searchFit.simps [simp del]

definition maxPlacedX :: "rootLayout list \<Rightarrow> rat" where
  "maxPlacedX layouts = foldl (\<lambda>mx l. max mx (finalX l + width l)) 100 (filter placed layouts)"

definition choosePlaceX :: "rootLayout list \<Rightarrow> posmap \<Rightarrow> rootLayout \<Rightarrow> rat option \<Rightarrow> rat" where
  "choosePlaceX layouts placedPersonPositions layout dX =
     (case dX of
        Some d \<Rightarrow>
          (case checkFit layout d placedPersonPositions of
             (fits, pushDir) \<Rightarrow>
               if fits then d
               else (case searchFit layout placedPersonPositions d (if pushDir \<ge> 0 then 1 else -1) 0 of
                       Some found \<Rightarrow> found
                     | None \<Rightarrow> maxPlacedX layouts + horizontalGap * (3 / 2)))
      | None \<Rightarrow> maxPlacedX layouts + horizontalGap * (3 / 2))"

definition commitPositions :: "rat \<Rightarrow> posmap \<Rightarrow> posmap \<Rightarrow> posmap" where
  "commitPositions placeX rel positions =
     foldl (\<lambda>m (i, relPos). AList.update i \<lparr>posX = placeX + posX relPos, posY = 100 + posY relPos\<rparr> m)
           positions rel"

text \<open>
  One round of the \<^verbatim>\<open>while\<close> loop. \<^verbatim>\<open>placedPersonPositions\<close> and
  \<^verbatim>\<open>this.positions\<close> start empty and receive the same \<^verbatim>\<open>set\<close> calls, so one map
  stands for both. Reading \<^verbatim>\<open>candidates[0].layout\<close> of an empty array throws.
\<close>

definition placeRound :: "rootLayout list \<Rightarrow> posmap \<Rightarrow> error + (rootLayout list \<times> posmap)" where
  "placeRound layouts positions =
     (case jsSort candCmp (map (scoreLayout positions layouts)
                             (filter (\<lambda>k. \<not> placed (layouts ! k)) [0..<length layouts])) of
        [] \<Rightarrow> Inl TypeError
      | best # _ \<Rightarrow>
          (let layout = layouts ! candLayout best;
               placeX = choosePlaceX layouts positions layout (desiredX best)
           in Inr (layouts[candLayout best := layout\<lparr>placed := True, finalX := placeX\<rparr>],
                   commitPositions placeX (relativePositions layout) positions)))"

function placeLoop :: "nat \<Rightarrow> rootLayout list \<Rightarrow> posmap \<Rightarrow> error + (nat \<times> rootLayout list \<times> posmap)" where
  "placeLoop safetyCounter layouts positions =
     (if list_ex (\<lambda>l. \<not> placed l) layouts \<and> safetyCounter < 100 then
        (case placeRound layouts positions of
           Inl e \<Rightarrow> Inl e
         | Inr (layouts', positions') \<Rightarrow> placeLoop (safetyCounter + 1) layouts' positions')
      else Inr (safetyCounter, layouts, positions))"
  by pat_completeness auto
termination
  by (relation "measure (\<lambda>(safetyCounter, layouts, positions). 100 - safetyCounter)") auto

declare placeLoop.simps [simp del]

section \<open>\<^verbatim>\<open>calculateLayout\<close>\<close>

record layoutOutput =
  outGenerations :: genmap
  outRoots :: "layoutNode list"
  outLayouts :: "rootLayout list"
  outRounds :: nat
  outPositions :: posmap

text \<open>
  The whole function. The result holds the position map \<^verbatim>\<open>this.positions\<close> together
  with the intermediate values the properties below speak about. The depth bound given
  to \<open>buildTree\<close> and \<open>getDescendants\<close> is one more than the number of people.
\<close>

definition calculateLayout :: "(string \<Rightarrow> rat option) \<Rightarrow> person list \<Rightarrow> error + layoutOutput" where
  "calculateLayout D input =
     (if length input = 0 then
        Inr \<lparr>outGenerations = [], outRoots = [], outLayouts = [], outRounds = 0, outPositions = []\<rparr>
      else
        let people = repairLinks input;
            pm = personMap people;
            gens = generations people;
            fuel = Suc (length people);
            potentialRoots = filter (\<lambda>p. map_of gens (pid p) = Some 0) people
        in case rootClusters fuel pm potentialRoots of
             None \<Rightarrow> Inl DepthBound
           | Some clusters \<Rightarrow>
               (case buildRoots fuel D pm (concat clusters @ people) of
                  None \<Rightarrow> Inl DepthBound
                | Some (roots, visited) \<Rightarrow>
                    (case placeLoop 0 (map (\<lambda>nd. identifyAnchors pm (makeLayout nd)) roots) [] of
                       Inl e \<Rightarrow> Inl e
                     | Inr (rounds, layouts, positions) \<Rightarrow>
                         Inr \<lparr>outGenerations = gens, outRoots = roots, outLayouts = layouts,
                              outRounds = rounds, outPositions = positions\<rparr>)))"

text \<open>\<^verbatim>\<open>this.positions.get(i)\<close> after \<^verbatim>\<open>calculateLayout(people)\<close>.\<close>

definition positionOf :: "(string \<Rightarrow> rat option) \<Rightarrow> person list \<Rightarrow> string \<Rightarrow> position option" where
  "positionOf D people i =
     (case calculateLayout D people of Inl e \<Rightarrow> None | Inr out \<Rightarrow> map_of (outPositions out) i)"

text \<open>The ids of the people a tree holds, as primary persons or as partners.\<close>

fun nodeIds :: "layoutNode \<Rightarrow> string set" where
  "nodeIds (LayoutNode p ps kids cw tw) = insert (pid p) (pid ` set ps) \<union> (\<Union>k\<in>set kids. nodeIds k)"

definition keysOf :: "('k \<times> 'v) list \<Rightarrow> 'k set" where
  "keysOf m = fst ` set m"

definition treeIds :: "layoutNode option \<Rightarrow> string set" where
  "treeIds r = (case r of None \<Rightarrow> {} | Some nd \<Rightarrow> nodeIds nd)"

definition pmOk :: "(string \<Rightarrow> person option) \<Rightarrow> bool" where
  "pmOk pm \<longleftrightarrow> (\<forall>i p. pm i = Some p \<longrightarrow> pid p = i)"

text \<open>No person belongs to two trees of the list.\<close>

fun disjointTrees :: "layoutNode list \<Rightarrow> bool" where
  "disjointTrees [] = True"
| "disjointTrees (t # ts) = (nodeIds t \<inter> (\<Union>k\<in>set ts. nodeIds k) = {} \<and> disjointTrees ts)"

text \<open>
  \<^verbatim>\<open>renderGhostNodes\<close> as a step on the view: it reads \<^verbatim>\<open>this.positions\<close>, never writes
  it, and keeps the ghost records in a list of its own.
\<close>

definition renderGhostNodes :: "person list \<Rightarrow> posmap \<Rightarrow> ghost list \<times> posmap" where
  "renderGhostNodes people positions = (ghostPositions people positions, positions)"


section \<open>The placement loop in double precision\<close>

text \<open>
  JavaScript numbers are IEEE 754 binary64 values. Every such value is a rational, and
  an arithmetic operation returns the exact result rounded to the nearest value with a
  significand of 53 bits, ties to the even significand. \<open>fl\<close> is that rounding, with the
  range of the exponent left unbounded (no overflow to infinity, no subnormal numbers;
  the coordinates of a layout are far from both). \<open>exponentOf x\<close> is the integer \<open>e\<close> with
  \<open>2 ^ e \<le> \<bar>x\<bar> < 2 ^ (e + 1)\<close>.
\<close>

definition pow2 :: "int \<Rightarrow> rat" where
  "pow2 k = (if 0 \<le> k then 2 ^ nat k else 1 / 2 ^ nat (- k))"

definition exponentOf :: "rat \<Rightarrow> int" where
  "exponentOf x =
     (case quotient_of \<bar>x\<bar> of (p, q) \<Rightarrow>
        let d = bitlen p - bitlen q
        in if pow2 d \<le> \<bar>x\<bar> then d else d - 1)"

definition roundHalfEven :: "rat \<Rightarrow> int" where
  "roundHalfEven x =
     (let f = \<lfloor>x\<rfloor>; r = x - of_int f
      in if r < 1 / 2 then f else if 1 / 2 < r then f + 1 else if even f then f else f + 1)"

definition fl :: "rat \<Rightarrow> rat" where
  "fl x = (if x = 0 then 0
           else let ulp = pow2 (exponentOf x - 52) in of_int (roundHalfEven (x / ulp)) * ulp)"

definition fadd :: "rat \<Rightarrow> rat \<Rightarrow> rat" where
  "fadd a b = fl (a + b)"

definition fsub :: "rat \<Rightarrow> rat \<Rightarrow> rat" where
  "fsub a b = fl (a - b)"

definition fmul :: "rat \<Rightarrow> rat \<Rightarrow> rat" where
  "fmul a b = fl (a * b)"

definition fdiv :: "rat \<Rightarrow> rat \<Rightarrow> rat" where
  "fdiv a b = fl (a / b)"

text \<open>
  The placement loop of \<^verbatim>\<open>calculateLayout\<close> with every arithmetic operation rounded as
  the code performs it. The trees, their widths and the relative positions are taken
  from the definitions above: they are sums of multiples of ten, which binary64
  represents exactly. A definition with the suffix \<open>f64\<close> differs from the one without
  it only by the rounding.
\<close>

definition scoreLayout_f64 :: "posmap \<Rightarrow> rootLayout list \<Rightarrow> nat \<Rightarrow> candidate" where
  "scoreLayout_f64 placedPersonPositions layouts k =
     (let layout = layouts ! k;
          placedAnchors = List.map_filter (map_of placedPersonPositions) (anchors layout)
      in if length placedAnchors > 0 then
           \<lparr>candLayout = k, score = 10,
            desiredX = Some (fsub (fdiv (foldl (\<lambda>s p. fadd s (posX p)) 0 placedAnchors)
                                        (of_nat (length placedAnchors)))
                                  (fdiv (width layout) 2))\<rparr>
         else if length (anchors layout) > 0 then \<lparr>candLayout = k, score = -5, desiredX = None\<rparr>
         else \<lparr>candLayout = k, score = 1, desiredX = None\<rparr>)"

definition candCmp_f64 :: "candidate \<Rightarrow> candidate \<Rightarrow> rat" where
  "candCmp_f64 a b =
     (if score b \<noteq> score a then fsub (score b) (score a)
      else case (desiredX a, desiredX b) of
             (Some xa, Some xb) \<Rightarrow> fsub xa xb
           | _ \<Rightarrow> 0)"

definition collides_f64 :: "rat \<Rightarrow> rat \<Rightarrow> position \<Rightarrow> bool" where
  "collides_f64 absX absY placedPos \<longleftrightarrow>
     \<bar>fsub (posY placedPos) absY\<bar> < nodeHeight \<and>
     absX < fadd (fadd (posX placedPos) nodeWidth) horizontalGap \<and>
     fadd (fadd absX nodeWidth) horizontalGap > posX placedPos"

definition checkFit_f64 :: "rootLayout \<Rightarrow> rat \<Rightarrow> posmap \<Rightarrow> bool \<times> int" where
  "checkFit_f64 layout targetX placedPersonPositions =
     (case foldl (\<lambda>acc (i, relPos).
                    foldl (\<lambda>(pushDir, collisionCount :: nat) (placedId, placedPos).
                             if collides_f64 (fadd targetX (posX relPos)) (fadd 100 (posY relPos)) placedPos
                             then (if fadd (fadd targetX (posX relPos)) (fdiv nodeWidth 2)
                                        > fadd (posX placedPos) (fdiv nodeWidth 2)
                                   then pushDir + 1 else pushDir - 1,
                                   collisionCount + 1)
                             else (pushDir, collisionCount))
                          acc placedPersonPositions)
                 (0, 0) (relativePositions layout) of
        (pushDir, collisionCount) \<Rightarrow> (collisionCount = 0, pushDir))"

function searchFit_f64 :: "rootLayout \<Rightarrow> posmap \<Rightarrow> rat \<Rightarrow> rat \<Rightarrow> nat \<Rightarrow> rat option" where
  "searchFit_f64 layout placedPersonPositions placeX preferredDir offset =
     (if offset < 4000 then
        (if fst (checkFit_f64 layout (fadd placeX (fmul (of_nat (offset + 50)) preferredDir))
                   placedPersonPositions)
         then Some (fadd placeX (fmul (of_nat (offset + 50)) preferredDir))
         else if offset + 50 > 1500 \<and>
                 fst (checkFit_f64 layout (fsub placeX (fmul (of_nat (offset + 50)) preferredDir))
                        placedPersonPositions)
         then Some (fsub placeX (fmul (of_nat (offset + 50)) preferredDir))
         else searchFit_f64 layout placedPersonPositions placeX preferredDir (offset + 50))
      else None)"
  by pat_completeness auto
termination
  by (relation "measure (\<lambda>(layout, placedPersonPositions, placeX, preferredDir, offset). 4000 - offset)") auto

declare searchFit_f64.simps [simp del]

definition maxPlacedX_f64 :: "rootLayout list \<Rightarrow> rat" where
  "maxPlacedX_f64 layouts = foldl (\<lambda>mx l. max mx (fadd (finalX l) (width l))) 100 (filter placed layouts)"

definition choosePlaceX_f64 :: "rootLayout list \<Rightarrow> posmap \<Rightarrow> rootLayout \<Rightarrow> rat option \<Rightarrow> rat" where
  "choosePlaceX_f64 layouts placedPersonPositions layout dX =
     (case dX of
        Some d \<Rightarrow>
          (case checkFit_f64 layout d placedPersonPositions of
             (fits, pushDir) \<Rightarrow>
               if fits then d
               else (case searchFit_f64 layout placedPersonPositions d (if pushDir \<ge> 0 then 1 else -1) 0 of
                       Some found \<Rightarrow> found
                     | None \<Rightarrow> fadd (maxPlacedX_f64 layouts) (fmul horizontalGap (3 / 2))))
      | None \<Rightarrow> fadd (maxPlacedX_f64 layouts) (fmul horizontalGap (3 / 2)))"

definition commitPositions_f64 :: "rat \<Rightarrow> posmap \<Rightarrow> posmap \<Rightarrow> posmap" where
  "commitPositions_f64 placeX rel positions =
     foldl (\<lambda>m (i, relPos). AList.update i \<lparr>posX = fadd placeX (posX relPos), posY = fadd 100 (posY relPos)\<rparr> m)
           positions rel"

definition placeRound_f64 :: "rootLayout list \<Rightarrow> posmap \<Rightarrow> error + (rootLayout list \<times> posmap)" where
  "placeRound_f64 layouts positions =
     (case jsSort candCmp_f64 (map (scoreLayout_f64 positions layouts)
                                 (filter (\<lambda>k. \<not> placed (layouts ! k)) [0..<length layouts])) of
        [] \<Rightarrow> Inl TypeError
      | best # _ \<Rightarrow>
          (let layout = layouts ! candLayout best;
               placeX = choosePlaceX_f64 layouts positions layout (desiredX best)
           in Inr (layouts[candLayout best := layout\<lparr>placed := True, finalX := placeX\<rparr>],
                   commitPositions_f64 placeX (relativePositions layout) positions)))"

function placeLoop_f64 :: "nat \<Rightarrow> rootLayout list \<Rightarrow> posmap \<Rightarrow> error + (nat \<times> rootLayout list \<times> posmap)" where
  "placeLoop_f64 safetyCounter layouts positions =
     (if list_ex (\<lambda>l. \<not> placed l) layouts \<and> safetyCounter < 100 then
        (case placeRound_f64 layouts positions of
           Inl e \<Rightarrow> Inl e
         | Inr (layouts', positions') \<Rightarrow> placeLoop_f64 (safetyCounter + 1) layouts' positions')
      else Inr (safetyCounter, layouts, positions))"
  by pat_completeness auto
termination
  by (relation "measure (\<lambda>(safetyCounter, layouts, positions). 100 - safetyCounter)") auto

declare placeLoop_f64.simps [simp del]

definition calculateLayout_f64 :: "(string \<Rightarrow> rat option) \<Rightarrow> person list \<Rightarrow> error + layoutOutput" where
  "calculateLayout_f64 D input =
     (if length input = 0 then
        Inr \<lparr>outGenerations = [], outRoots = [], outLayouts = [], outRounds = 0, outPositions = []\<rparr>
      else
        let people = repairLinks input;
            pm = personMap people;
            gens = generations people;
            fuel = Suc (length people);
            potentialRoots = filter (\<lambda>p. map_of gens (pid p) = Some 0) people
        in case rootClusters fuel pm potentialRoots of
             None \<Rightarrow> Inl DepthBound
           | Some clusters \<Rightarrow>
               (case buildRoots fuel D pm (concat clusters @ people) of
                  None \<Rightarrow> Inl DepthBound
                | Some (roots, visited) \<Rightarrow>
                    (case placeLoop_f64 0 (map (\<lambda>nd. identifyAnchors pm (makeLayout nd)) roots) [] of
                       Inl e \<Rightarrow> Inl e
                     | Inr (rounds, layouts, positions) \<Rightarrow>
                         Inr \<lparr>outGenerations = gens, outRoots = roots, outLayouts = layouts,
                              outRounds = rounds, outPositions = positions\<rparr>)))"

definition positionOf_f64 :: "(string \<Rightarrow> rat option) \<Rightarrow> person list \<Rightarrow> string \<Rightarrow> position option" where
  "positionOf_f64 D people i =
     (case calculateLayout_f64 D people of Inl e \<Rightarrow> None | Inr out \<Rightarrow> map_of (outPositions out) i)"

section \<open>Repair of the data store (\<^verbatim>\<open>repairData\<close>)\<close>

text \<open>
  \<^verbatim>\<open>this.people\<close> is a \<^verbatim>\<open>Map\<close> from ids to person objects: an association list in
  insertion order, whose keys the pass never changes. The state of the pass is the map
  together with the flag \<^verbatim>\<open>changed\<close>.
\<close>

type_synonym store = "(string \<times> person) list"

definition fieldOf :: "(person \<Rightarrow> string list) \<Rightarrow> store \<Rightarrow> string \<Rightarrow> string list" where
  "fieldOf f m k = (case map_of m k of None \<Rightarrow> [] | Some p \<Rightarrow> f p)"

definition dedupParents :: "string \<Rightarrow> store \<Rightarrow> store" where
  "dedupParents i m =
     (case map_of m i of None \<Rightarrow> m | Some p \<Rightarrow> AList.update i (p\<lparr>parents := newSet (parents p)\<rparr>) m)"

definition dedupChildren :: "string \<Rightarrow> store \<Rightarrow> store" where
  "dedupChildren i m =
     (case map_of m i of None \<Rightarrow> m | Some p \<Rightarrow> AList.update i (p\<lparr>children := newSet (children p)\<rparr>) m)"

definition dedupPartners :: "string \<Rightarrow> store \<Rightarrow> store" where
  "dedupPartners i m =
     (case map_of m i of None \<Rightarrow> m | Some p \<Rightarrow> AList.update i (p\<lparr>partners := newSet (partners p)\<rparr>) m)"

definition mirrorParent :: "string \<Rightarrow> store \<times> bool \<Rightarrow> string \<Rightarrow> store \<times> bool" where
  "mirrorParent i s parentId =
     (case map_of (fst s) parentId of
        None \<Rightarrow> s
      | Some parent \<Rightarrow>
          if i \<in> set (children parent) then s
          else (AList.update parentId (parent\<lparr>children := children parent @ [i]\<rparr>) (fst s), True))"

definition mirrorChild :: "string \<Rightarrow> store \<times> bool \<Rightarrow> string \<Rightarrow> store \<times> bool" where
  "mirrorChild i s childId =
     (case map_of (fst s) childId of
        None \<Rightarrow> s
      | Some child \<Rightarrow>
          if i \<in> set (parents child) then s
          else (AList.update childId (child\<lparr>parents := parents child @ [i]\<rparr>) (fst s), True))"

definition mirrorPartner :: "string \<Rightarrow> store \<times> bool \<Rightarrow> string \<Rightarrow> store \<times> bool" where
  "mirrorPartner i s partnerId =
     (case map_of (fst s) partnerId of
        None \<Rightarrow> s
      | Some partner \<Rightarrow>
          if i \<in> set (partners partner) then s
          else (AList.update partnerId (partner\<lparr>partners := partners partner @ [i]\<rparr>) (fst s), True))"

text \<open>The body of the \<^verbatim>\<open>for\<close> loop for the entry with key \<open>i\<close>.\<close>

definition repairEntry :: "store \<times> bool \<Rightarrow> string \<Rightarrow> store \<times> bool" where
  "repairEntry s i =
     (let m1 = dedupParents i (fst s);
          s2 = foldl (mirrorParent i) (m1, snd s) (fieldOf parents m1 i);
          m3 = dedupChildren i (fst s2);
          s4 = foldl (mirrorChild i) (m3, snd s2) (fieldOf children m3 i);
          m5 = dedupPartners i (fst s4)
      in foldl (mirrorPartner i) (m5, snd s4) (fieldOf partners m5 i))"

definition repairData :: "store \<Rightarrow> store \<times> bool" where
  "repairData m = foldl repairEntry (m, False) (map fst m)"

section \<open>Invariants used in the proofs\<close>

text \<open>The state of the loop that builds the roots: the trees so far and the visited set.\<close>

definition rootsInv :: "(string \<Rightarrow> person option) \<Rightarrow> layoutNode list \<times> string set \<Rightarrow> bool" where
  "rootsInv pm s \<longleftrightarrow>
     disjointTrees (fst s) \<and> (\<Union>k\<in>set (fst s). nodeIds k) \<subseteq> snd s \<and>
     snd s \<inter> dom pm \<subseteq> (\<Union>k\<in>set (fst s). nodeIds k)"

text \<open>
  The state of the placement loop after \<open>c\<close> rounds, started from the layouts \<open>ls0\<close>:
  the relative positions never change, \<open>c\<close> layouts are placed, and the position map
  holds exactly the people of the placed layouts, each once.
\<close>

definition placedIdx :: "rootLayout list \<Rightarrow> nat set" where
  "placedIdx ls = {k. k < length ls \<and> placed (ls ! k)}"

definition schedInv :: "rootLayout list \<Rightarrow> nat \<Rightarrow> rootLayout list \<Rightarrow> posmap \<Rightarrow> bool" where
  "schedInv ls0 c ls ps \<longleftrightarrow>
     c \<le> 100 \<and> length ls = length ls0 \<and>
     (\<forall>k<length ls. relativePositions (ls ! k) = relativePositions (ls0 ! k)) \<and>
     card (placedIdx ls) = c \<and>
     keysOf ps = (\<Union>k\<in>placedIdx ls. keysOf (relativePositions (ls0 ! k))) \<and>
     distinct (map fst ps)"

text \<open>
  What the placed layouts have written: every layout is the initial one up to the two
  fields the loop sets, and every person of a placed layout is in the position map at
  its relative position moved by \<open>finalX\<close> and the base \<open>y\<close> of 100.
\<close>

definition shiftBy :: "rat \<Rightarrow> position \<Rightarrow> position" where
  "shiftBy placeX r = \<lparr>posX = placeX + posX r, posY = 100 + posY r\<rparr>"

definition writtenInv :: "rootLayout list \<Rightarrow> rootLayout list \<Rightarrow> posmap \<Rightarrow> bool" where
  "writtenInv ls0 ls ps \<longleftrightarrow>
     (\<forall>k<length ls. ls ! k = (ls0 ! k)\<lparr>placed := placed (ls ! k), finalX := finalX (ls ! k)\<rparr>) \<and>
     (\<forall>k<length ls. placed (ls ! k) \<longrightarrow>
        (\<forall>e\<in>set (relativePositions (ls ! k)).
           map_of ps (fst e) = Some (shiftBy (finalX (ls ! k)) (snd e))))"

text \<open>Bounds on the vertical coordinates.\<close>

definition yInvariant :: "rootLayout list \<Rightarrow> posmap \<Rightarrow> bool" where
  "yInvariant ls ps \<longleftrightarrow>
     (\<forall>l\<in>set ls. \<forall>e\<in>set (relativePositions l). 0 \<le> posY (snd e)) \<and>
     (\<forall>e\<in>set ps. 100 \<le> posY (snd e))"

text \<open>
  Consistency of a store: in the entry of \<open>a\<close>, every parent, child or partner that is a
  key of the store lists \<open>a\<close> back as child, parent or partner, and no list has a
  duplicate. A key that is absent has empty lists.
\<close>

definition mirPar :: "store \<Rightarrow> string \<Rightarrow> bool" where
  "mirPar m a \<longleftrightarrow> (\<forall>q\<in>set (fieldOf parents m a). q \<in> dom (map_of m) \<longrightarrow> a \<in> set (fieldOf children m q))"

definition mirChi :: "store \<Rightarrow> string \<Rightarrow> bool" where
  "mirChi m a \<longleftrightarrow> (\<forall>c\<in>set (fieldOf children m a). c \<in> dom (map_of m) \<longrightarrow> a \<in> set (fieldOf parents m c))"

definition mirPrt :: "store \<Rightarrow> string \<Rightarrow> bool" where
  "mirPrt m a \<longleftrightarrow> (\<forall>r\<in>set (fieldOf partners m a). r \<in> dom (map_of m) \<longrightarrow> a \<in> set (fieldOf partners m r))"

definition noDups :: "store \<Rightarrow> string \<Rightarrow> bool" where
  "noDups m a \<longleftrightarrow>
     distinct (fieldOf parents m a) \<and> distinct (fieldOf children m a) \<and> distinct (fieldOf partners m a)"

definition consistent :: "store \<Rightarrow> bool" where
  "consistent m \<longleftrightarrow> (\<forall>a. noDups m a \<and> mirPar m a \<and> mirChi m a \<and> mirPrt m a)"

text \<open>
  A property of stores that every step of the repair keeps, when the step mirrors a
  link that the entry at hand really has.
\<close>

definition stable :: "(store \<Rightarrow> bool) \<Rightarrow> bool" where
  "stable A \<longleftrightarrow>
     (\<forall>i m. A m \<longrightarrow> A (dedupParents i m)) \<and>
     (\<forall>i m. A m \<longrightarrow> A (dedupChildren i m)) \<and>
     (\<forall>i m. A m \<longrightarrow> A (dedupPartners i m)) \<and>
     (\<forall>i s q. q \<in> set (fieldOf parents (fst s) i) \<longrightarrow> A (fst s) \<longrightarrow> A (fst (mirrorParent i s q))) \<and>
     (\<forall>i s c. c \<in> set (fieldOf children (fst s) i) \<longrightarrow> A (fst s) \<longrightarrow> A (fst (mirrorChild i s c))) \<and>
     (\<forall>i s r. r \<in> set (fieldOf partners (fst s) i) \<longrightarrow> A (fst s) \<longrightarrow> A (fst (mirrorPartner i s r)))"

text \<open>The three stages of the loop body: parents, children, partners.\<close>

definition stageParents :: "string \<Rightarrow> store \<times> bool \<Rightarrow> store \<times> bool" where
  "stageParents i s =
     foldl (mirrorParent i) (dedupParents i (fst s), snd s) (fieldOf parents (dedupParents i (fst s)) i)"

definition stageChildren :: "string \<Rightarrow> store \<times> bool \<Rightarrow> store \<times> bool" where
  "stageChildren i s =
     foldl (mirrorChild i) (dedupChildren i (fst s), snd s) (fieldOf children (dedupChildren i (fst s)) i)"

definition stagePartners :: "string \<Rightarrow> store \<times> bool \<Rightarrow> store \<times> bool" where
  "stagePartners i s =
     foldl (mirrorPartner i) (dedupPartners i (fst s), snd s) (fieldOf partners (dedupPartners i (fst s)) i)"

text \<open>
  The people array seen as a store, and the body of the pre-processing loop of
  \<open>calculateLayout\<close> as steps on that store: with unique ids the array and the store
  hold the same objects.
\<close>

definition toStore :: "person list \<Rightarrow> store" where
  "toStore st = map (\<lambda>p. (pid p, p)) st"

definition inlineEntry :: "store \<times> bool \<Rightarrow> string \<Rightarrow> store \<times> bool" where
  "inlineEntry s me =
     (let s1 = foldl (mirrorChild me) s (fieldOf children (fst s) me)
      in foldl (mirrorParent me) s1 (fieldOf parents (fst s1) me))"

text \<open>
  How a store \<open>m\<close> reached by steps of the repair relates to the store \<open>m0\<close> it started
  from. \<open>reverseOf f m0 a\<close> are the keys whose list \<open>f\<close> names \<open>a\<close> in \<open>m0\<close>. The lists of \<open>m\<close>
  hold nothing but the links of \<open>m0\<close> and their reverses (\<open>tracksFamily\<close>,
  \<open>tracksPartners\<close>), every link of \<open>m0\<close> is still there (\<open>keeps\<close>), the first
  occurrences are in the order of \<open>m0\<close> (\<open>extends\<close>), and keys and the other fields of
  the entries are those of \<open>m0\<close> (\<open>sameCore\<close>).
\<close>

definition reverseOf :: "(person \<Rightarrow> string list) \<Rightarrow> store \<Rightarrow> string \<Rightarrow> string set" where
  "reverseOf f m a = {b. a \<in> set (fieldOf f m b)}"

definition tracksFamily :: "store \<Rightarrow> store \<Rightarrow> bool" where
  "tracksFamily m0 m \<longleftrightarrow>
     (\<forall>a. set (fieldOf parents m a) \<subseteq> set (fieldOf parents m0 a) \<union> reverseOf children m0 a \<and>
          set (fieldOf children m a) \<subseteq> set (fieldOf children m0 a) \<union> reverseOf parents m0 a)"

definition tracksPartners :: "store \<Rightarrow> store \<Rightarrow> bool" where
  "tracksPartners m0 m \<longleftrightarrow>
     (\<forall>a. set (fieldOf partners m a) \<subseteq> set (fieldOf partners m0 a) \<union> reverseOf partners m0 a)"

definition keeps :: "(person \<Rightarrow> string list) \<Rightarrow> store \<Rightarrow> store \<Rightarrow> string \<Rightarrow> bool" where
  "keeps f m0 m a \<longleftrightarrow> set (fieldOf f m0 a) \<subseteq> set (fieldOf f m a)"

definition extends :: "(person \<Rightarrow> string list) \<Rightarrow> store \<Rightarrow> store \<Rightarrow> string \<Rightarrow> bool" where
  "extends f m0 m a \<longleftrightarrow> (\<exists>extra. newSet (fieldOf f m a) = newSet (fieldOf f m0 a) @ extra)"

definition core :: "person \<Rightarrow> person" where
  "core p = p\<lparr>parents := [], children := [], partners := []\<rparr>"

definition sameCore :: "store \<Rightarrow> store \<Rightarrow> bool" where
  "sameCore m0 m \<longleftrightarrow>
     map fst m = map fst m0 \<and> (\<forall>a. map_option core (map_of m a) = map_option core (map_of m0 a))"

text \<open>
  An array \<open>st\<close> that differs from \<open>st0\<close> only by ids appended to parents and children
  lists.
\<close>

definition grown :: "person list \<Rightarrow> person list \<Rightarrow> bool" where
  "grown st0 st \<longleftrightarrow>
     length st = length st0 \<and>
     (\<forall>k<length st0. \<exists>ep ec. st ! k = (st0 ! k)\<lparr>parents := parents (st0 ! k) @ ep,
                                                children := children (st0 ! k) @ ec\<rparr>)"

text \<open>
  Geometry. Two positions overlap when \<open>checkFit\<close> counts them as a collision. The
  lists \<open>entries\<close> hold every position that \<open>calcRelative\<close> writes, in the order of
  writing; \<open>clearL\<close> says that no two members of a list overlap, \<open>apart\<close> that no member
  of one list overlaps a member of the other, and \<open>inBox\<close> bounds the members.
\<close>

definition overlap :: "position \<Rightarrow> position \<Rightarrow> bool" where
  "overlap a b \<longleftrightarrow> collides (posX a) (posY a) b"




definition apart :: "posmap \<Rightarrow> posmap \<Rightarrow> bool" where
  "apart A B \<longleftrightarrow> (\<forall>a\<in>set A. \<forall>b\<in>set B. \<not> overlap (snd a) (snd b))"




section \<open>Example inputs\<close>

definition mkPerson :: "string \<Rightarrow> string list \<Rightarrow> string list \<Rightarrow> string list \<Rightarrow> person" where
  "mkPerson i ps cs qs =
     \<lparr>pid = i, gender = [], birthDate = [], parents = ps, children = cs, partners = qs, splitLinks = []\<rparr>"

text \<open>A date parser for which no string is a valid date.\<close>

definition noDates :: "string \<Rightarrow> rat option" where
  "noDates s = None"

text \<open>Two partners with two children (scenario 2 of the specification).\<close>

definition coupleFamily :: "person list" where
  "coupleFamily =
     [mkPerson ''a'' [] [''c'', ''d''] [''b''],
      mkPerson ''b'' [] [''c'', ''d''] [''a''],
      mkPerson ''c'' [''a'', ''b''] [] [],
      mkPerson ''d'' [''a'', ''b''] [] []]"

text \<open>A person with a split parent-link to a placed person (scenario 4).\<close>

definition splitFamily :: "person list" where
  "splitFamily =
     [(mkPerson ''a'' [''b''] [] [])
        \<lparr>splitLinks := [\<lparr>linkType = ''parent'', linkedPersonId = ''b'', ghostContext = []\<rparr>]\<rparr>,
      mkPerson ''b'' [] [''a''] []]"

text \<open>A single person without relationships (scenario 1).\<close>

definition loner :: person where
  "loner = mkPerson ''a'' [] [] []"

text \<open>
  A blended family: \<open>h\<close> and \<open>p\<close> are partners, \<open>p\<close> has the children \<open>s\<close> and \<open>t\<close>, and the
  other parent of \<open>s\<close> is \<open>g\<close>. All links are mirrored.
\<close>

definition blended :: "person list" where
  "blended =
     [mkPerson ''h'' [] [] [''p''],
      mkPerson ''p'' [] [''s'', ''t''] [''h''],
      mkPerson ''s'' [''p'', ''g''] [] [],
      mkPerson ''t'' [''p''] [] [],
      mkPerson ''g'' [] [''s''] []]"

text \<open>
  People without any relationship, and a list of \<open>n\<close> of them with the distinct
  two-character ids \<open>00\<close>, \<open>01\<close>, ..., for \<open>n\<close> up to 121.
\<close>

definition isolated :: "person \<Rightarrow> bool" where
  "isolated p \<longleftrightarrow> parents p = [] \<and> children p = [] \<and> partners p = []"

definition crowd :: "nat \<Rightarrow> person list" where
  "crowd n = map (\<lambda>k. mkPerson [''0123456789x'' ! (k div 11), ''0123456789x'' ! (k mod 11)] [] [] []) [0..<n]"

text \<open>
  Inconsistent data: \<open>a\<close> lists the parent \<open>c\<close> twice and the partner \<open>b\<close>, and neither
  \<open>b\<close> nor \<open>c\<close> lists \<open>a\<close> back. First as the array given to \<open>calculateLayout\<close>, then
  as the map of the data store.
\<close>

definition oneSided :: "person list" where
  "oneSided =
     [mkPerson ''a'' [''c'', ''c''] [] [''b''],
      mkPerson ''b'' [] [] [],
      mkPerson ''c'' [] [] []]"

definition brokenStore :: store where
  "brokenStore =
     [(''a'', mkPerson ''a'' [''c'', ''c''] [] [''b'']),
      (''b'', mkPerson ''b'' [] [] []),
      (''c'', mkPerson ''c'' [] [] [])]"

text \<open>An array in which the id \<open>q\<close> occurs twice; the first \<open>q\<close> has the parent \<open>p\<close>.\<close>

definition duplicateIds :: "person list" where
  "duplicateIds =
     [mkPerson ''p'' [] [] [],
      mkPerson ''q'' [''p''] [] [],
      mkPerson ''q'' [] [] []]"

text \<open>
  A consistent family of nine: the partners \<open>h\<close> and \<open>p\<close>, the five children of \<open>p\<close>, and
  the partners \<open>g\<close> and \<open>q\<close>, where \<open>g\<close> is the other parent of the second and the fourth
  child and \<open>q\<close> of the fifth.
\<close>

definition nineFamily :: "person list" where
  "nineFamily =
     [mkPerson ''h'' [] [] [''p''],
      mkPerson ''p'' [] [''k1'', ''k2'', ''k3'', ''k4'', ''k5''] [''h''],
      mkPerson ''k1'' [''p''] [] [],
      mkPerson ''k2'' [''p'', ''g''] [] [],
      mkPerson ''k3'' [''p''] [] [],
      mkPerson ''k4'' [''p'', ''g''] [] [],
      mkPerson ''k5'' [''p'', ''q''] [] [],
      mkPerson ''g'' [] [''k2'', ''k4''] [''q''],
      mkPerson ''q'' [] [''k5''] [''g'']]"

section \<open>Widths of couple blocks and subtrees\<close>

definition widthFormula :: "layoutNode \<Rightarrow> bool" where
  "widthFormula nd \<longleftrightarrow>
     coupleWidth nd = (1 + of_nat (length (npartners nd))) * nodeWidth
                       + of_nat (length (npartners nd)) * horizontalGap \<and>
     totalWidth nd = max (coupleWidth nd)
                       (sum_list (map totalWidth (nchildren nd))
                        + (of_nat (length (nchildren nd)) - 1) * horizontalGap)"

lemma foldl_add_sum: "foldl (\<lambda>s c. s + totalWidth c) a kids = a + sum_list (map totalWidth kids)"
  by (induction kids arbitrary: a) auto

lemma childrenWidth_Nil: "childrenWidth [] = 0"
  by (simp add: childrenWidth_def)

lemma childrenWidth_Cons:
  "childrenWidth (k # ks) =
     sum_list (map totalWidth (k # ks)) + (of_nat (length (k # ks)) - 1) * horizontalGap"
  by (simp add: childrenWidth_def foldl_add_sum)

text \<open>
  With no children the source takes \<open>max 0 (0 - 1) = 0\<close> gaps where the formula has \<open>-1\<close>;
  the maximum with the positive couple width is the same.
\<close>

lemma widthFormula_built:
  "widthFormula (LayoutNode p ps kids
      ((1 + of_nat (length ps)) * nodeWidth + ((1 + of_nat (length ps)) - 1) * horizontalGap)
      (max ((1 + of_nat (length ps)) * nodeWidth + ((1 + of_nat (length ps)) - 1) * horizontalGap)
           (childrenWidth kids)))"
proof (cases kids)
  case Nil
  have "(0::rat) \<le> (1 + of_nat (length ps)) * nodeWidth + of_nat (length ps) * horizontalGap"
    by (simp add: nodeWidth_def horizontalGap_def)
  then show ?thesis using Nil
    by (simp add: widthFormula_def childrenWidth_Nil horizontalGap_def max_def)
next
  case (Cons k ks)
  then show ?thesis
    by (simp add: widthFormula_def childrenWidth_Cons)
qed

lemma buildChildren_all:
  assumes step: "\<And>visited personId nd v'. buildTree n D pm visited personId = Some (Some nd, v') \<Longrightarrow> P nd"
  shows "buildChildren n D pm visited cids = Some (kids, v'') \<Longrightarrow> list_all P kids"
proof (induction cids arbitrary: visited kids v'')
  case Nil
  then show ?case by simp
next
  case (Cons c cs)
  then show ?case
    using step by (auto split: option.splits)
qed

lemma buildTree_Suc_SomeD:
  assumes "buildTree (Suc n) D pm visited personId = Some (Some nd, v')"
  obtains p kids where
    "personId \<notin> visited"
    "pm personId = Some p"
    "buildChildren n D pm
       (foldl (\<lambda>v q. insert (pid q) v) (insert personId visited)
          (filter (\<lambda>q. pid q \<notin> insert personId visited) (getFullPartners pm p)))
       (jsSort (childCmp D pm)
          (childIdsOf p (filter (\<lambda>q. pid q \<notin> insert personId visited) (getFullPartners pm p))))
     = Some (kids, v')"
    "nd = LayoutNode p (filter (\<lambda>q. pid q \<notin> insert personId visited) (getFullPartners pm p)) kids
            ((1 + of_nat (length (filter (\<lambda>q. pid q \<notin> insert personId visited) (getFullPartners pm p)))) * nodeWidth
              + ((1 + of_nat (length (filter (\<lambda>q. pid q \<notin> insert personId visited) (getFullPartners pm p)))) - 1) * horizontalGap)
            (max ((1 + of_nat (length (filter (\<lambda>q. pid q \<notin> insert personId visited) (getFullPartners pm p)))) * nodeWidth
              + ((1 + of_nat (length (filter (\<lambda>q. pid q \<notin> insert personId visited) (getFullPartners pm p)))) - 1) * horizontalGap)
              (childrenWidth kids))"
  using assms by (auto simp: Let_def split: if_splits option.splits)

lemma buildTree_widths:
  "buildTree n D pm visited personId = Some (Some nd, v') \<Longrightarrow> list_all widthFormula (allNodes nd)"
proof (induction n arbitrary: visited personId nd v')
  case 0
  then show ?case by simp
next
  case (Suc n)
  from Suc.prems obtain p kids where
    kids: "buildChildren n D pm
             (foldl (\<lambda>v q. insert (pid q) v) (insert personId visited)
                (filter (\<lambda>q. pid q \<notin> insert personId visited) (getFullPartners pm p)))
             (jsSort (childCmp D pm)
                (childIdsOf p (filter (\<lambda>q. pid q \<notin> insert personId visited) (getFullPartners pm p))))
           = Some (kids, v')"
    and nd: "nd = LayoutNode p (filter (\<lambda>q. pid q \<notin> insert personId visited) (getFullPartners pm p)) kids
            ((1 + of_nat (length (filter (\<lambda>q. pid q \<notin> insert personId visited) (getFullPartners pm p)))) * nodeWidth
              + ((1 + of_nat (length (filter (\<lambda>q. pid q \<notin> insert personId visited) (getFullPartners pm p)))) - 1) * horizontalGap)
            (max ((1 + of_nat (length (filter (\<lambda>q. pid q \<notin> insert personId visited) (getFullPartners pm p)))) * nodeWidth
              + ((1 + of_nat (length (filter (\<lambda>q. pid q \<notin> insert personId visited) (getFullPartners pm p)))) - 1) * horizontalGap)
              (childrenWidth kids))"
    by (rule buildTree_Suc_SomeD)
  have "list_all (\<lambda>k. list_all widthFormula (allNodes k)) kids"
    using buildChildren_all[where P = "\<lambda>k. list_all widthFormula (allNodes k)", OF Suc.IH kids] .
  then have "list_all widthFormula (concat (map allNodes kids))"
    by (induction kids) auto
  then show ?case
    unfolding nd using widthFormula_built by simp
qed

text \<open>
  Claim C7. Every layout node of a tree that \<open>buildTree\<close> returns, with \<open>k\<close> partners and
  \<open>n\<close> children, has \<open>coupleWidth = (1 + k) * nodeWidth + k * horizontalGap\<close> and
  \<open>totalWidth\<close> the maximum of \<open>coupleWidth\<close> and the sum of the children's
  \<open>totalWidth\<close> plus \<open>(n - 1) * horizontalGap\<close>.
\<close>

theorem buildTree_width_formula:
  assumes "buildTree n D pm visited personId = Some (Some tree, v')"
    and "nd \<in> set (allNodes tree)"
  shows "coupleWidth nd = (1 + of_nat (length (npartners nd))) * nodeWidth
                          + of_nat (length (npartners nd)) * horizontalGap \<and>
         totalWidth nd = max (coupleWidth nd)
                          (sum_list (map totalWidth (nchildren nd))
                           + (of_nat (length (nchildren nd)) - 1) * horizontalGap)"
  using buildTree_widths[OF assms(1)] assms(2)
  by (simp add: list_all_iff widthFormula_def)

theorem buildTree_width_formula_witness:
  "buildTree 5 (\<lambda>_. None) (personMap coupleFamily) {} ''a'' =
     Some (Some (LayoutNode (mkPerson ''a'' [] [''c'', ''d''] [''b''])
                   [mkPerson ''b'' [] [''c'', ''d''] [''a'']]
                   [LayoutNode (mkPerson ''c'' [''a'', ''b''] [] []) [] [] 180 180,
                    LayoutNode (mkPerson ''d'' [''a'', ''b''] [] []) [] [] 180 180] 400 400),
           {''a'', ''b'', ''c'', ''d''}) \<and>
   (400::rat) = (1 + of_nat (length [mkPerson ''b'' [] [''c'', ''d''] [''a'']])) * nodeWidth
                  + of_nat (length [mkPerson ''b'' [] [''c'', ''d''] [''a'']]) * horizontalGap \<and>
   (400::rat) = max 400 (sum_list (map totalWidth
                   [LayoutNode (mkPerson ''c'' [''a'', ''b''] [] []) [] [] 180 180,
                    LayoutNode (mkPerson ''d'' [''a'', ''b''] [] []) [] [] 180 180])
                 + (of_nat (length [LayoutNode (mkPerson ''c'' [''a'', ''b''] [] []) [] [] 180 180,
                    LayoutNode (mkPerson ''d'' [''a'', ''b''] [] []) [] [] 180 180]) - 1) * horizontalGap)"
proof -
  have e: "buildTree 5 (\<lambda>_. None) (personMap coupleFamily) {} ''a'' =
     Some (Some (LayoutNode (mkPerson ''a'' [] [''c'', ''d''] [''b''])
                   [mkPerson ''b'' [] [''c'', ''d''] [''a'']]
                   [LayoutNode (mkPerson ''c'' [''a'', ''b''] [] []) [] [] 180 180,
                    LayoutNode (mkPerson ''d'' [''a'', ''b''] [] []) [] [] 180 180] 400 400),
           {''a'', ''b'', ''c'', ''d''})"
    by code_simp
  show ?thesis
    using e buildTree_width_formula[OF e, of "LayoutNode (mkPerson ''a'' [] [''c'', ''d''] [''b''])
                   [mkPerson ''b'' [] [''c'', ''d''] [''a'']]
                   [LayoutNode (mkPerson ''c'' [''a'', ''b''] [] []) [] [] 180 180,
                    LayoutNode (mkPerson ''d'' [''a'', ''b''] [] []) [] [] 180 180] 400 400"]
    by simp
qed

section \<open>Ghost geometry\<close>

lemma set_map_filter: "set (List.map_filter f xs) = {b. \<exists>a\<in>set xs. f a = Some b}"
  by (induction xs) (auto split: option.splits)

text \<open>
  Claim C9. For a split-link record of a person whose linked person exists and has a
  canonical position, the ghost entry pushed to \<^verbatim>\<open>ghostPositions\<close> is at
  \<open>(x, y + generationGap)\<close> for type parent, at \<open>(x + nodeWidth + horizontalGap, y)\<close>
  for type partner and at \<open>(x, y - generationGap)\<close> for type child, where \<open>(x, y)\<close>
  is the linked person's position.
\<close>

theorem ghost_position_by_type:
  assumes "p \<in> set people"
    and "split \<in> set (splitLinks p)"
    and "personMap people (linkedPersonId split) = Some lp"
    and "map_of positions (linkedPersonId split) = Some linkedPos"
  shows "(linkType split = ''parent'' \<longrightarrow>
            \<lparr>gperson = p, ghostX = Some (posX linkedPos), ghostY = Some (posY linkedPos + generationGap),
             linkedPerson = lp, splitType = ''parent''\<rparr> \<in> set (ghostPositions people positions)) \<and>
         (linkType split = ''partner'' \<longrightarrow>
            \<lparr>gperson = p, ghostX = Some (posX linkedPos + nodeWidth + horizontalGap), ghostY = Some (posY linkedPos),
             linkedPerson = lp, splitType = ''partner''\<rparr> \<in> set (ghostPositions people positions)) \<and>
         (linkType split = ''child'' \<longrightarrow>
            \<lparr>gperson = p, ghostX = Some (posX linkedPos), ghostY = Some (posY linkedPos - generationGap),
             linkedPerson = lp, splitType = ''child''\<rparr> \<in> set (ghostPositions people positions))"
proof -
  have "ghostOf (personMap people) positions p split =
          Some \<lparr>gperson = p,
                ghostX = fst (ghostXY (linkType split) linkedPos),
                ghostY = snd (ghostXY (linkType split) linkedPos),
                linkedPerson = lp,
                splitType = linkType split\<rparr>"
    using assms(3,4) by (simp add: ghostOf_def)
  then have "\<lparr>gperson = p,
                ghostX = fst (ghostXY (linkType split) linkedPos),
                ghostY = snd (ghostXY (linkType split) linkedPos),
                linkedPerson = lp,
                splitType = linkType split\<rparr> \<in> set (ghostPositions people positions)"
    using assms(1,2) by (force simp: ghostPositions_def set_map_filter)
  then show ?thesis
    by (auto simp: ghostXY_def)
qed

theorem ghost_position_by_type_witness:
  "\<lparr>gperson = hd splitFamily, ghostX = Some 160, ghostY = Some (100 + generationGap),
    linkedPerson = mkPerson ''b'' [] [''a''] [], splitType = ''parent''\<rparr>
     \<in> set (ghostPositions splitFamily [(''b'', \<lparr>posX = 160, posY = 100\<rparr>)])"
proof -
  have 1: "hd splitFamily \<in> set splitFamily" by (simp add: splitFamily_def)
  have 2: "\<lparr>linkType = ''parent'', linkedPersonId = ''b'', ghostContext = []\<rparr> \<in> set (splitLinks (hd splitFamily))"
    by (simp add: splitFamily_def)
  have 3: "personMap splitFamily (linkedPersonId \<lparr>linkType = ''parent'', linkedPersonId = ''b'', ghostContext = []\<rparr>)
             = Some (mkPerson ''b'' [] [''a''] [])"
    by (simp add: splitFamily_def personMap_def mkPerson_def)
  have 4: "map_of [(''b'', \<lparr>posX = 160, posY = 100\<rparr>)]
             (linkedPersonId \<lparr>linkType = ''parent'', linkedPersonId = ''b'', ghostContext = []\<rparr>)
           = Some \<lparr>posX = 160, posY = 100\<rparr>"
    by simp
  show ?thesis
    using ghost_position_by_type[OF 1 2 3 4] by simp
qed

section \<open>Scenario 1: a single person\<close>

lemma single_gen:
  assumes "parents p = []" "children p = []" "partners p = []"
  shows "generations [p] = [(pid p, 0)]"
  using assms
  by (simp add: generations_def rawGenerations_def seedGeneration_def wave.simps waveStep_def
      personMap_def wavePartners_def newSet_def visitAll_def normalizeGenerations_def minGen_def)

lemma single_repair:
  assumes "parents p = []" "children p = []" "partners p = []"
  shows "repairLinks [p] = [p]"
  using assms
  by (simp add: repairLinks_def repairPerson_def)

lemma single_clusters:
  assumes "parents p = []" "children p = []" "partners p = []"
  shows "rootClusters (Suc (Suc 0)) (personMap [p]) [p] = Some [[p]]"
  using assms
  by (simp add: rootClusters_def makeCluster_def joinCluster_def personMap_def jsSort_def)

lemma single_roots:
  assumes "parents p = []" "children p = []" "partners p = []"
  shows "buildRoots (Suc (Suc 0)) D (personMap [p]) [p, p]
         = Some ([LayoutNode p [] [] nodeWidth nodeWidth], {pid p})"
  using assms
  by (simp add: buildRoots_def buildRoot_def personMap_def getFullPartners_def newSet_def
      childIdsOf_def jsSort_def childrenWidth_def nodeWidth_def)

lemma single_layouts:
  assumes "parents p = []" "children p = []" "partners p = []"
  shows "identifyAnchors (personMap [p]) (makeLayout (LayoutNode p [] [] nodeWidth nodeWidth))
         = \<lparr>rootNode = LayoutNode p [] [] nodeWidth nodeWidth,
            relativePositions = [(pid p, \<lparr>posX = 0, posY = 0\<rparr>)], width = nodeWidth,
            layoutId = pid p, placed = False, finalX = 0, anchors = []\<rparr>"
  using assms
  by (simp add: identifyAnchors_def makeLayout_def anchorsOf_def personMap_def placePartners_def
      childrenWidth_def)

lemma single_place:
  "placeLoop 0 [\<lparr>rootNode = nd,
            relativePositions = [(i, \<lparr>posX = 0, posY = 0\<rparr>)], width = w,
            layoutId = i, placed = False, finalX = 0, anchors = []\<rparr>] []
   = Inr (1, [\<lparr>rootNode = nd,
            relativePositions = [(i, \<lparr>posX = 0, posY = 0\<rparr>)], width = w,
            layoutId = i, placed = True, finalX = 100 + horizontalGap * (3 / 2), anchors = []\<rparr>],
          [(i, \<lparr>posX = 100 + horizontalGap * (3 / 2), posY = 100\<rparr>)])"
  by (simp add: placeLoop.simps placeRound_def scoreLayout_def jsSort_def choosePlaceX_def
      maxPlacedX_def commitPositions_def Let_def)

lemma single_person_output:
  assumes "parents p = []" "children p = []" "partners p = []"
  shows "calculateLayout D [p] =
           Inr \<lparr>outGenerations = [(pid p, 0)],
                outRoots = [LayoutNode p [] [] nodeWidth nodeWidth],
                outLayouts = [\<lparr>rootNode = LayoutNode p [] [] nodeWidth nodeWidth,
                     relativePositions = [(pid p, \<lparr>posX = 0, posY = 0\<rparr>)], width = nodeWidth,
                     layoutId = pid p, placed = True, finalX = 100 + horizontalGap * (3 / 2), anchors = []\<rparr>],
                outRounds = 1,
                outPositions = [(pid p, \<lparr>posX = 100 + horizontalGap * (3 / 2), posY = 100\<rparr>)]\<rparr>"
  by (simp add: calculateLayout_def single_repair[OF assms] single_gen[OF assms]
      single_clusters[OF assms] single_roots[OF assms] single_layouts[OF assms] single_place)

text \<open>
  Claim C8 as stated fails: the rightmost-append rule starts from 100 and adds one and a
  half horizontal gaps, so the single person is placed at \<open>x = 160\<close>, not at \<open>x = 100\<close>.
\<close>

theorem single_person_position_counterexample:
  "positionOf noDates [loner] ''a'' = Some \<lparr>posX = 160, posY = 100\<rparr> \<and>
   positionOf noDates [loner] ''a'' \<noteq> Some \<lparr>posX = 100, posY = 100\<rparr>"
proof -
  have "parents loner = []" "children loner = []" "partners loner = []" "pid loner = ''a''"
    by (simp_all add: loner_def mkPerson_def)
  then show ?thesis
    by (simp add: positionOf_def single_person_output horizontalGap_def)
qed

text \<open>
  Claim C8, amended. For an input of a single person without relationships,
  \<open>calculateLayout\<close> returns one root, a layout node without partners or children whose
  \<open>totalWidth\<close> is \<open>nodeWidth\<close>, and the position map has the single entry
  \<open>(100 + 1.5 * horizontalGap, 100)\<close>, that is \<open>(160, 100)\<close>, for that person.
\<close>

theorem single_person_layout:
  assumes "parents p = []" "children p = []" "partners p = []"
  shows "\<exists>out. calculateLayout D [p] = Inr out \<and>
               outRoots out = [LayoutNode p [] [] nodeWidth nodeWidth] \<and>
               totalWidth (hd (outRoots out)) = nodeWidth \<and>
               outPositions out = [(pid p, \<lparr>posX = 100 + horizontalGap * (3 / 2), posY = 100\<rparr>)] \<and>
               positionOf D [p] (pid p) = Some \<lparr>posX = 160, posY = 100\<rparr>"
  by (simp add: positionOf_def single_person_output[OF assms] horizontalGap_def)

theorem single_person_layout_witness:
  "\<exists>out. calculateLayout noDates [loner] = Inr out \<and>
         outRoots out = [LayoutNode loner [] [] nodeWidth nodeWidth] \<and>
         totalWidth (hd (outRoots out)) = nodeWidth \<and>
         outPositions out = [(pid loner, \<lparr>posX = 100 + horizontalGap * (3 / 2), posY = 100\<rparr>)] \<and>
         positionOf noDates [loner] (pid loner) = Some \<lparr>posX = 160, posY = 100\<rparr>"
proof -
  have 1: "parents loner = []" and 2: "children loner = []" and 3: "partners loner = []"
    by (simp_all add: loner_def mkPerson_def)
  show ?thesis
    by (rule single_person_layout[OF 1 2 3])
qed

section \<open>The placement loop: basic facts\<close>

lemma insertBy_set: "set (insertBy cmp a bs) = insert a (set bs)"
  by (induction bs) auto

lemma jsSort_set: "set (jsSort cmp xs) = set xs"
  by (induction xs) (auto simp: jsSort_def insertBy_set)

lemma insertBy_length: "length (insertBy cmp a bs) = Suc (length bs)"
  by (induction bs) auto

lemma jsSort_length: "length (jsSort cmp xs) = length xs"
  by (induction xs) (auto simp: jsSort_def insertBy_length)

lemma candLayout_scoreLayout: "candLayout (scoreLayout ps ls k) = k"
  by (simp add: scoreLayout_def Let_def)

text \<open>What one round does: it picks an unplaced layout and commits it.\<close>

lemma placeRound_InrD:
  assumes "placeRound ls ps = Inr (ls', ps')"
  obtains k dX where "k < length ls" "\<not> placed (ls ! k)"
    "ls' = ls[k := (ls ! k)\<lparr>placed := True, finalX := choosePlaceX ls ps (ls ! k) dX\<rparr>]"
    "ps' = commitPositions (choosePlaceX ls ps (ls ! k) dX) (relativePositions (ls ! k)) ps"
proof -
  let ?cands = "map (scoreLayout ps ls) (filter (\<lambda>k. \<not> placed (ls ! k)) [0..<length ls])"
  from assms obtain best rest where sorted: "jsSort candCmp ?cands = best # rest"
    by (auto simp: placeRound_def split: list.splits)
  then have "best \<in> set (jsSort candCmp ?cands)" by simp
  then have "best \<in> set ?cands"
    unfolding jsSort_set .
  then obtain k where k: "k < length ls" "\<not> placed (ls ! k)" "best = scoreLayout ps ls k"
    by auto
  have "candLayout best = k" by (simp add: k(3) candLayout_scoreLayout)
  with assms sorted have
    "ls' = ls[k := (ls ! k)\<lparr>placed := True, finalX := choosePlaceX ls ps (ls ! k) (desiredX best)\<rparr>]"
    "ps' = commitPositions (choosePlaceX ls ps (ls ! k) (desiredX best)) (relativePositions (ls ! k)) ps"
    by (auto simp: placeRound_def Let_def)
  with k(1,2) show ?thesis by (rule that)
qed

lemma placeRound_no_error:
  assumes "list_ex (\<lambda>l. \<not> placed l) ls"
  shows "\<exists>r. placeRound ls ps = Inr r"
proof -
  let ?cands = "map (scoreLayout ps ls) (filter (\<lambda>k. \<not> placed (ls ! k)) [0..<length ls])"
  from assms obtain k where "k < length ls" "\<not> placed (ls ! k)"
    by (auto simp: list_ex_iff in_set_conv_nth)
  then have "filter (\<lambda>k. \<not> placed (ls ! k)) [0..<length ls] \<noteq> []"
    by (auto simp: filter_empty_conv)
  then have "length (jsSort candCmp ?cands) \<noteq> 0"
    by (simp add: jsSort_length)
  then obtain best rest where "jsSort candCmp ?cands = best # rest"
    by (cases "jsSort candCmp ?cands") auto
  then show ?thesis
    by (simp add: placeRound_def Let_def)
qed

lemma placeLoop_invariant:
  assumes "I c ls ps"
    and step: "\<And>c ls ps ls' ps'. I c ls ps \<Longrightarrow> list_ex (\<lambda>l. \<not> placed l) ls \<Longrightarrow> c < 100 \<Longrightarrow>
               placeRound ls ps = Inr (ls', ps') \<Longrightarrow> I (c + 1) ls' ps'"
    and "placeLoop c ls ps = Inr (c', ls', ps')"
  shows "I c' ls' ps'"
  using assms(1,3)
proof (induction c ls ps rule: placeLoop.induct)
  case (1 c ls ps)
  show ?case
  proof (cases "list_ex (\<lambda>l. \<not> placed l) ls \<and> c < 100")
    case True
    then obtain ls1 ps1 where r: "placeRound ls ps = Inr (ls1, ps1)"
      using placeRound_no_error[of ls ps] by auto
    have "I (c + 1) ls1 ps1"
      using step[OF "1.prems"(1) _ _ r] True by simp
    moreover have "placeLoop (c + 1) ls1 ps1 = Inr (c', ls', ps')"
      using "1.prems"(2) True r by (subst (asm) placeLoop.simps) simp
    ultimately show ?thesis
      using "1.IH"[OF True r refl] by simp
  next
    case False
    then show ?thesis
      using "1.prems" by (subst (asm) placeLoop.simps) auto
  qed
qed

lemma placeLoop_returns: "\<exists>r. placeLoop c ls ps = Inr r"
proof (induction c ls ps rule: placeLoop.induct)
  case (1 c ls ps)
  show ?case
  proof (cases "list_ex (\<lambda>l. \<not> placed l) ls \<and> c < 100")
    case True
    then obtain ls1 ps1 where r: "placeRound ls ps = Inr (ls1, ps1)"
      using placeRound_no_error[of ls ps] by auto
    show ?thesis
      using "1.IH"[OF True r refl] True r by (subst placeLoop.simps) simp
  next
    case False
    then show ?thesis
      by (subst placeLoop.simps) auto
  qed
qed

section \<open>Vertical coordinates\<close>

lemma in_update_cases: "e \<in> set (AList.update k v m) \<Longrightarrow> e = (k, v) \<or> e \<in> set m"
  by (induction m) (auto split: if_splits)

lemma placePartners_fold_all:
  assumes "\<forall>e\<in>set m. Q (snd e)" and "\<And>cx. Q \<lparr>posX = cx, posY = y\<rparr>"
  shows "\<forall>e\<in>set (fst (foldl (\<lambda>(m', cx) q. (AList.update (pid q) \<lparr>posX = cx, posY = y\<rparr> m', cx + nodeWidth + horizontalGap))
                (m, c0) ps)). Q (snd e)"
  using assms(1)
proof (induction ps arbitrary: m c0)
  case Nil
  then show ?case by simp
next
  case (Cons q ps)
  have "\<forall>e\<in>set (AList.update (pid q) \<lparr>posX = c0, posY = y\<rparr> m). Q (snd e)"
    using Cons.prems assms(2) by (auto dest!: in_update_cases)
  from Cons.IH[OF this] show ?case by simp
qed

lemma placePartners_all:
  assumes "\<forall>e\<in>set m. Q (snd e)" and "\<And>cx. Q \<lparr>posX = cx, posY = y\<rparr>"
  shows "\<forall>e\<in>set (placePartners c0 y ps m). Q (snd e)"
  unfolding placePartners_def using placePartners_fold_all[OF assms] .

lemma calcRelative_y_nonneg:
  "0 \<le> y \<Longrightarrow> \<forall>e\<in>set m. 0 \<le> posY (snd e) \<Longrightarrow> \<forall>e\<in>set (calcRelative nd x y m). 0 \<le> posY (snd e)"
  and calcRelativeChildren_y_nonneg:
  "0 \<le> y \<Longrightarrow> \<forall>e\<in>set m. 0 \<le> posY (snd e) \<Longrightarrow> \<forall>e\<in>set (calcRelativeChildren kids x y m). 0 \<le> posY (snd e)"
proof (induction nd x y m and kids x y m rule: calcRelative_calcRelativeChildren.induct)
  case (1 p ps kids cw tw x y m)
  let ?coupleX = "x + (tw - cw) / 2"
  let ?m1 = "AList.update (pid p) \<lparr>posX = ?coupleX, posY = y\<rparr> m"
  let ?m2 = "placePartners (?coupleX + nodeWidth + horizontalGap) y ps ?m1"
  have m1: "\<forall>e\<in>set ?m1. 0 \<le> posY (snd e)"
    using "1.prems" by (auto dest!: in_update_cases)
  have m2: "\<forall>e\<in>set ?m2. 0 \<le> posY (snd e)"
    by (rule placePartners_all[OF m1]) (simp add: "1.prems")
  have "0 \<le> y + generationGap" using "1.prems" by (simp add: generationGap_def)
  from "1.IH"[OF refl refl refl refl this m2]
  show ?case
    by (simp add: Let_def)
next
  case (2 childX y m)
  then show ?case by simp
next
  case (3 c cs childX y m)
  have "\<forall>e\<in>set (calcRelative c childX y m). 0 \<le> posY (snd e)"
    using "3.IH"(1) "3.prems" by blast
  from "3.IH"(2)[OF "3.prems"(1) this] show ?case by simp
qed

lemma makeLayout_y_nonneg: "\<forall>e\<in>set (relativePositions (makeLayout nd)). 0 \<le> posY (snd e)"
  using calcRelative_y_nonneg[of 0 "[]" nd 0] by (simp add: makeLayout_def)

lemma commitPositions_cases:
  "e \<in> set (commitPositions placeX rel ps) \<Longrightarrow>
     e \<in> set ps \<or> (\<exists>r\<in>set rel. e = (fst r, \<lparr>posX = placeX + posX (snd r), posY = 100 + posY (snd r)\<rparr>))"
  unfolding commitPositions_def
proof (induction rel arbitrary: ps)
  case Nil
  then show ?case by simp
next
  case (Cons a rel)
  obtain i relPos where a: "a = (i, relPos)" by (cases a)
  from Cons.IH[of "AList.update i \<lparr>posX = placeX + posX relPos, posY = 100 + posY relPos\<rparr> ps"] Cons.prems
  show ?case
    by (auto simp: a dest!: in_update_cases)
qed

lemma yInvariant_step:
  assumes "yInvariant ls ps" and "placeRound ls ps = Inr (ls', ps')"
  shows "yInvariant ls' ps'"
proof -
  from assms(2) obtain k dX where k: "k < length ls"
    and ls': "ls' = ls[k := (ls ! k)\<lparr>placed := True, finalX := choosePlaceX ls ps (ls ! k) dX\<rparr>]"
    and ps': "ps' = commitPositions (choosePlaceX ls ps (ls ! k) dX) (relativePositions (ls ! k)) ps"
    by (rule placeRound_InrD)
  have rel: "\<forall>e\<in>set (relativePositions (ls ! k)). 0 \<le> posY (snd e)"
    using assms(1) nth_mem[OF k] by (simp add: yInvariant_def)
  have "\<forall>l\<in>set ls'. \<forall>e\<in>set (relativePositions l). 0 \<le> posY (snd e)"
  proof
    fix l assume "l \<in> set ls'"
    then have "l \<in> set ls \<or> l = (ls ! k)\<lparr>placed := True, finalX := choosePlaceX ls ps (ls ! k) dX\<rparr>"
      unfolding ls' using set_update_subset_insert[of ls k] by blast
    then show "\<forall>e\<in>set (relativePositions l). 0 \<le> posY (snd e)"
      using assms(1) rel by (auto simp: yInvariant_def)
  qed
  moreover have "\<forall>e\<in>set ps'. 100 \<le> posY (snd e)"
  proof
    fix e assume "e \<in> set ps'"
    from commitPositions_cases[OF this[unfolded ps']]
    show "100 \<le> posY (snd e)"
      using assms(1) rel by (auto simp: yInvariant_def)
  qed
  ultimately show ?thesis by (simp add: yInvariant_def)
qed

lemma calculateLayout_InrD:
  assumes "calculateLayout D input = Inr out" and "input \<noteq> []"
  obtains roots where
    "placeLoop 0 (map (\<lambda>nd. identifyAnchors (personMap (repairLinks input)) (makeLayout nd)) roots) []
       = Inr (outRounds out, outLayouts out, outPositions out)"
    "outRoots out = roots"
    "outGenerations out = generations (repairLinks input)"
  using assms
  by (auto simp: calculateLayout_def Let_def split: option.splits sum.splits)

lemma positions_y_ge_100:
  assumes "calculateLayout D input = Inr out" and "e \<in> set (outPositions out)"
  shows "100 \<le> posY (snd e)"
proof (cases "input = []")
  case True
  with assms(1) have "outPositions out = []" by (auto simp: calculateLayout_def)
  with assms(2) show ?thesis by simp
next
  case False
  from assms(1) False obtain roots where
    loop: "placeLoop 0 (map (\<lambda>nd. identifyAnchors (personMap (repairLinks input)) (makeLayout nd)) roots) []
       = Inr (outRounds out, outLayouts out, outPositions out)"
    by (rule calculateLayout_InrD)
  have init: "yInvariant (map (\<lambda>nd. identifyAnchors (personMap (repairLinks input)) (makeLayout nd)) roots) []"
    using makeLayout_y_nonneg by (auto simp: yInvariant_def identifyAnchors_def)
  have "yInvariant (outLayouts out) (outPositions out)"
    by (rule placeLoop_invariant[where I = "\<lambda>c. yInvariant", OF init _ loop]) (rule yInvariant_step)
  then show ?thesis using assms(2) by (simp add: yInvariant_def)
qed

section \<open>The depth bound is never reached\<close>

lemma foldOpt_total:
  assumes "\<And>s a. a \<in> set xs \<Longrightarrow> \<exists>s'. f s a = Some s'"
  shows "\<exists>s'. foldOpt f s xs = Some s'"
  using assms
proof (induction xs arbitrary: s)
  case Nil
  show ?case by simp
next
  case (Cons a xs)
  from Cons.prems[of a s] obtain s1 where s1: "f s a = Some s1" by auto
  from Cons.IH[of s1] Cons.prems obtain s2 where "foldOpt f s1 xs = Some s2" by auto
  with s1 show ?case by simp
qed

lemma card_Diff_mono: "finite A \<Longrightarrow> V \<subseteq> V' \<Longrightarrow> card (A - V') \<le> card (A - V)"
  by (intro card_mono) auto

lemma card_Diff_insert_less:
  "finite A \<Longrightarrow> i \<in> A \<Longrightarrow> i \<notin> V \<Longrightarrow> insert i V \<subseteq> V' \<Longrightarrow> card (A - V') < card (A - V)"
  by (intro psubset_card_mono) auto

lemma getDescendantsList_total:
  assumes fin: "finite (dom pm)"
    and step: "\<And>i visited. card (dom pm - visited) < n \<Longrightarrow>
                 \<exists>v. getDescendants n pm i visited = Some v \<and> visited \<subseteq> v"
  shows "card (dom pm - visited) < n \<Longrightarrow>
         \<exists>v. getDescendantsList n pm cs visited = Some v \<and> visited \<subseteq> v"
proof (induction cs arbitrary: visited)
  case Nil
  show ?case by simp
next
  case (Cons c cs)
  from step[OF Cons.prems] obtain v1 where v1: "getDescendants n pm c visited = Some v1" "visited \<subseteq> v1"
    by auto
  have "card (dom pm - v1) < n"
    using card_Diff_mono[OF fin v1(2)] Cons.prems by simp
  from Cons.IH[OF this] obtain v2 where "getDescendantsList n pm cs v1 = Some v2" "v1 \<subseteq> v2" by auto
  with v1 show ?case by auto
qed

lemma getDescendants_total:
  assumes fin: "finite (dom pm)"
  shows "card (dom pm - visited) < n \<Longrightarrow>
         \<exists>v. getDescendants n pm i visited = Some v \<and> visited \<subseteq> v"
proof (induction n arbitrary: i visited)
  case 0
  then show ?case by simp
next
  case (Suc n)
  show ?case
  proof (cases "i \<in> visited")
    case True
    then show ?thesis by simp
  next
    case False
    show ?thesis
    proof (cases "pm i")
      case None
      with False show ?thesis by auto
    next
      case (Some p)
      then have "i \<in> dom pm" by auto
      then have "card (dom pm - insert i visited) < card (dom pm - visited)"
        by (intro card_Diff_insert_less[OF fin _ False]) auto
      with Suc.prems have less: "card (dom pm - insert i visited) < n" by simp
      from getDescendantsList_total[OF fin Suc.IH less, of "children p"]
      obtain v where "getDescendantsList n pm (children p) (insert i visited) = Some v"
        "insert i visited \<subseteq> v" by auto
      with False Some show ?thesis by auto
    qed
  qed
qed

lemma dom_personMap: "dom (personMap people) = pid ` set people"
  by (auto simp: personMap_def dom_map_of_conv_image_fst image_image)

lemma finite_dom_personMap: "finite (dom (personMap people))"
  by (simp add: dom_personMap)

lemma card_dom_personMap: "card (dom (personMap people) - V) < Suc (length people)"
proof -
  have "card (dom (personMap people) - V) \<le> card (pid ` set people)"
    by (intro card_mono) (auto simp: dom_personMap)
  also have "\<dots> \<le> card (set people)" by (rule card_image_le) simp
  also have "\<dots> \<le> length people" by (rule card_length)
  finally show ?thesis by simp
qed

lemma getDescendants_personMap:
  "\<exists>v. getDescendants (Suc (length people)) (personMap people) i V = Some v"
  using getDescendants_total[OF finite_dom_personMap card_dom_personMap] by blast

lemma joinCluster_total:
  "\<exists>s'. joinCluster (Suc (length people)) (personMap people) rd s r = Some s'"
proof -
  obtain v where "getDescendants (Suc (length people)) (personMap people) (pid r) {} = Some v"
    using getDescendants_personMap by blast
  then show ?thesis
    by (cases s) (simp add: joinCluster_def del: getDescendants.simps)
qed

lemma makeCluster_total:
  "\<exists>s'. makeCluster (Suc (length people)) (personMap people) roots s r = Some s'"
proof -
  obtain cs as where s: "s = (cs, as)" by (cases s)
  obtain v where v: "getDescendants (Suc (length people)) (personMap people) (pid r) {} = Some v"
    using getDescendants_personMap by blast
  obtain s1 where "foldOpt (joinCluster (Suc (length people)) (personMap people) v) ([r], insert (pid r) as) roots = Some s1"
    using foldOpt_total[of roots "joinCluster (Suc (length people)) (personMap people) v"] joinCluster_total
    by blast
  with v show ?thesis
    by (cases s1) (simp add: makeCluster_def s del: getDescendants.simps)
qed

lemma rootClusters_total:
  "\<exists>cs. rootClusters (Suc (length people)) (personMap people) roots = Some cs"
  using foldOpt_total[of roots "makeCluster (Suc (length people)) (personMap people) roots" "([], {})"]
    makeCluster_total
  by (auto simp: rootClusters_def)

lemma foldl_insert_visited: "foldl (\<lambda>v q. insert (pid q) v) V ps = V \<union> pid ` set ps"
  by (induction ps arbitrary: V) auto

lemma buildChildren_total:
  assumes fin: "finite (dom pm)"
    and step: "\<And>i visited. card (dom pm - visited) < n \<Longrightarrow>
                 \<exists>r v. buildTree n D pm visited i = Some (r, v) \<and> visited \<subseteq> v"
  shows "card (dom pm - visited) < n \<Longrightarrow>
         \<exists>ks v. buildChildren n D pm visited cs = Some (ks, v) \<and> visited \<subseteq> v"
proof (induction cs arbitrary: visited)
  case Nil
  show ?case by simp
next
  case (Cons c cs)
  from step[OF Cons.prems, of c] obtain r v1 where v1: "buildTree n D pm visited c = Some (r, v1)" "visited \<subseteq> v1"
    by auto
  have "card (dom pm - v1) < n"
    using card_Diff_mono[OF fin v1(2)] Cons.prems by simp
  from Cons.IH[OF this] obtain ks v2 where "buildChildren n D pm v1 cs = Some (ks, v2)" "v1 \<subseteq> v2" by auto
  with v1 show ?case by auto
qed

lemma buildTree_total:
  assumes fin: "finite (dom pm)"
  shows "card (dom pm - visited) < n \<Longrightarrow>
         \<exists>r v. buildTree n D pm visited i = Some (r, v) \<and> visited \<subseteq> v"
proof (induction n arbitrary: i visited)
  case 0
  then show ?case by simp
next
  case (Suc n)
  show ?case
  proof (cases "i \<in> visited")
    case True
    then show ?thesis by simp
  next
    case False
    show ?thesis
    proof (cases "pm i")
      case None
      with False show ?thesis by auto
    next
      case (Some p)
      let ?ps = "filter (\<lambda>q. pid q \<notin> insert i visited) (getFullPartners pm p)"
      let ?v2 = "foldl (\<lambda>v q. insert (pid q) v) (insert i visited) ?ps"
      have sub: "insert i visited \<subseteq> ?v2" by (auto simp: foldl_insert_visited)
      from Some have "i \<in> dom pm" by auto
      then have "card (dom pm - ?v2) < card (dom pm - visited)"
        by (rule card_Diff_insert_less[OF fin _ False sub])
      with Suc.prems have less: "card (dom pm - ?v2) < n" by simp
      from buildChildren_total[OF fin Suc.IH less, of "jsSort (childCmp D pm) (childIdsOf p ?ps)"]
      obtain ks v where kv: "buildChildren n D pm ?v2 (jsSort (childCmp D pm) (childIdsOf p ?ps)) = Some (ks, v)"
        "?v2 \<subseteq> v" by auto
      have "visited \<subseteq> v" using sub kv(2) by blast
      with False Some kv(1) show ?thesis by (simp add: Let_def)
    qed
  qed
qed

lemma buildRoot_total:
  "\<exists>s'. buildRoot (Suc (length people)) D (personMap people) s p = Some s'"
proof -
  obtain rs V where s: "s = (rs, V)" by (cases s)
  obtain r v where "buildTree (Suc (length people)) D (personMap people) V (pid p) = Some (r, v)"
    using buildTree_total[OF finite_dom_personMap card_dom_personMap] by blast
  then show ?thesis
    by (simp add: buildRoot_def s del: buildTree.simps)
qed

lemma buildRoots_total:
  "\<exists>s'. buildRoots (Suc (length people)) D (personMap people) ps = Some s'"
  unfolding buildRoots_def
  using foldOpt_total[of ps "buildRoot (Suc (length people)) D (personMap people)"] buildRoot_total
  by blast

lemma calculateLayout_returns: "\<exists>out. calculateLayout D input = Inr out"
proof (cases "input = []")
  case True
  then show ?thesis by (simp add: calculateLayout_def)
next
  case False
  let ?people = "repairLinks input"
  let ?pm = "personMap ?people"
  let ?roots = "filter (\<lambda>p. map_of (generations ?people) (pid p) = Some 0) ?people"
  obtain cs where cs: "rootClusters (Suc (length ?people)) ?pm ?roots = Some cs"
    using rootClusters_total by blast
  obtain rs V where rs: "buildRoots (Suc (length ?people)) D ?pm (concat cs @ ?people) = Some (rs, V)"
    using buildRoots_total[of ?people D "concat cs @ ?people"] by auto
  obtain c ls ps where "placeLoop 0 (map (\<lambda>nd. identifyAnchors ?pm (makeLayout nd)) rs) [] = Inr (c, ls, ps)"
    using placeLoop_returns[of 0 "map (\<lambda>nd. identifyAnchors ?pm (makeLayout nd)) rs" "[]"] by auto
  with False cs rs show ?thesis
    by (simp add: calculateLayout_def Let_def)
qed

section \<open>Keys of the position maps\<close>

lemma keysOf_Nil: "keysOf [] = {}"
  by (simp add: keysOf_def)

lemma keysOf_update: "keysOf (AList.update k v m) = insert k (keysOf m)"
  by (simp add: keysOf_def keys_update)

lemma placePartners_keys: "keysOf (placePartners c y ps m) = keysOf m \<union> pid ` set ps"
proof -
  have "keysOf (fst (foldl (\<lambda>(m', cx) q. (AList.update (pid q) \<lparr>posX = cx, posY = y\<rparr> m', cx + nodeWidth + horizontalGap))
                (m, c) ps)) = keysOf m \<union> pid ` set ps"
    by (induction ps arbitrary: m c) (auto simp: keysOf_update)
  then show ?thesis by (simp add: placePartners_def)
qed

lemma calcRelative_keys:
  "keysOf (calcRelative nd x y m) = keysOf m \<union> nodeIds nd"
  and calcRelativeChildren_keys:
  "keysOf (calcRelativeChildren kids x y m) = keysOf m \<union> (\<Union>k\<in>set kids. nodeIds k)"
proof (induction nd x y m and kids x y m rule: calcRelative_calcRelativeChildren.induct)
  case (1 p ps kids cw tw x y m)
  show ?case
    unfolding calcRelative.simps Let_def "1.IH"[OF refl refl refl refl]
    by (auto simp: placePartners_keys keysOf_update)
next
  case (2 childX y m)
  show ?case by simp
next
  case (3 c cs childX y m)
  show ?case
    unfolding calcRelativeChildren.simps "3.IH"(2) "3.IH"(1) by auto
qed

lemma makeLayout_keys: "keysOf (relativePositions (makeLayout nd)) = nodeIds nd"
  by (simp add: makeLayout_def calcRelative_keys keysOf_Nil)

lemma commitPositions_keys: "keysOf (commitPositions placeX rel ps) = keysOf ps \<union> keysOf rel"
  unfolding commitPositions_def
proof (induction rel arbitrary: ps)
  case Nil
  show ?case by (simp add: keysOf_Nil)
next
  case (Cons a rel)
  obtain i relPos where a: "a = (i, relPos)" by (cases a)
  show ?case
    by (simp add: a Cons.IH keysOf_update) (auto simp: keysOf_def)
qed

lemma distinct_update_keys: "distinct (map fst m) \<Longrightarrow> distinct (map fst (AList.update k v m))"
  by (simp add: distinct_update)

lemma commitPositions_distinct:
  "distinct (map fst ps) \<Longrightarrow> distinct (map fst (commitPositions placeX rel ps))"
  unfolding commitPositions_def
proof (induction rel arbitrary: ps)
  case Nil
  then show ?case by simp
next
  case (Cons a rel)
  obtain i relPos where a: "a = (i, relPos)" by (cases a)
  from Cons.IH[OF distinct_update_keys[OF Cons.prems]] show ?case by (simp add: a)
qed

section \<open>The people of a tree\<close>

lemma pmOk_personMap: "pmOk (personMap people)"
  by (auto simp: pmOk_def dest: personMap_SomeD)

lemma buildChildren_ids:
  assumes step: "\<And>i visited r v. buildTree n D pm visited i = Some (r, v) \<Longrightarrow>
                   visited \<subseteq> v \<and> treeIds r \<subseteq> v - visited \<and> (v - visited) \<inter> dom pm \<subseteq> treeIds r"
  shows "buildChildren n D pm visited cs = Some (ks, v) \<Longrightarrow>
         visited \<subseteq> v \<and> (\<Union>k\<in>set ks. nodeIds k) \<subseteq> v - visited \<and>
         (v - visited) \<inter> dom pm \<subseteq> (\<Union>k\<in>set ks. nodeIds k)"
proof (induction cs arbitrary: visited ks v)
  case Nil
  then show ?case by auto
next
  case (Cons c cs)
  from Cons.prems obtain r v1 rs where
    1: "buildTree n D pm visited c = Some (r, v1)"
    and 2: "buildChildren n D pm v1 cs = Some (rs, v)"
    and ks: "ks = (case r of None \<Rightarrow> rs | Some nd \<Rightarrow> nd # rs)"
    by (auto split: option.splits)
  from step[OF 1] have a: "visited \<subseteq> v1" "treeIds r \<subseteq> v1 - visited" "(v1 - visited) \<inter> dom pm \<subseteq> treeIds r"
    by auto
  from Cons.IH[OF 2] have b: "v1 \<subseteq> v" "(\<Union>k\<in>set rs. nodeIds k) \<subseteq> v - v1"
    "(v - v1) \<inter> dom pm \<subseteq> (\<Union>k\<in>set rs. nodeIds k)"
    by auto
  have ids: "(\<Union>k\<in>set ks. nodeIds k) = treeIds r \<union> (\<Union>k\<in>set rs. nodeIds k)"
    by (cases r) (auto simp: ks treeIds_def)
  have 1: "visited \<subseteq> v" using a(1) b(1) by blast
  have 2: "treeIds r \<union> (\<Union>k\<in>set rs. nodeIds k) \<subseteq> v - visited" using a(1,2) b(1,2) by blast
  have 3: "(v - visited) \<inter> dom pm \<subseteq> treeIds r \<union> (\<Union>k\<in>set rs. nodeIds k)" using a(3) b(3) by blast
  show ?case
    unfolding ids using 1 2 3 by simp
qed

lemma buildTree_ids:
  assumes ok: "pmOk pm"
  shows "buildTree n D pm visited i = Some (r, v) \<Longrightarrow>
         visited \<subseteq> v \<and> treeIds r \<subseteq> v - visited \<and> (v - visited) \<inter> dom pm \<subseteq> treeIds r"
proof (induction n arbitrary: visited i r v)
  case 0
  then show ?case by simp
next
  case (Suc n)
  show ?case
  proof (cases "i \<in> visited")
    case True
    with Suc.prems show ?thesis by (auto simp: treeIds_def)
  next
    case False
    show ?thesis
    proof (cases "pm i")
      case None
      with False Suc.prems show ?thesis by (auto simp: treeIds_def)
    next
      case (Some p)
      let ?ps = "filter (\<lambda>q. pid q \<notin> insert i visited) (getFullPartners pm p)"
      let ?v2 = "foldl (\<lambda>v q. insert (pid q) v) (insert i visited) ?ps"
      from Suc.prems False Some obtain ks where
        ks: "buildChildren n D pm ?v2 (jsSort (childCmp D pm) (childIdsOf p ?ps)) = Some (ks, v)"
        and r: "treeIds r = insert (pid p) (pid ` set ?ps) \<union> (\<Union>k\<in>set ks. nodeIds k)"
        by (auto simp: Let_def treeIds_def split: option.splits)
      have pid: "pid p = i" using ok Some by (simp add: pmOk_def)
      define P where "P = pid ` set ?ps"
      define K where "K = (\<Union>k\<in>set ks. nodeIds k)"
      have v2: "?v2 = insert i visited \<union> P" by (simp add: foldl_insert_visited P_def)
      have fresh: "P \<inter> insert i visited = {}" by (auto simp: P_def)
      from buildChildren_ids[OF Suc.IH ks]
      have c: "insert i visited \<union> P \<subseteq> v" "K \<subseteq> v - (insert i visited \<union> P)"
        "(v - (insert i visited \<union> P)) \<inter> dom pm \<subseteq> K"
        unfolding v2 K_def by auto
      have r': "treeIds r = insert i P \<union> K" using r pid by (simp add: P_def K_def)
      have 1: "visited \<subseteq> v" using c(1) by blast
      have 2: "treeIds r \<subseteq> v - visited" unfolding r' using c(1,2) fresh False by blast
      have 3: "(v - visited) \<inter> dom pm \<subseteq> treeIds r" unfolding r' using c(3) by blast
      from 1 2 3 show ?thesis by simp
    qed
  qed
qed

section \<open>The roots cover the people and share none\<close>

lemma disjointTrees_snoc:
  "disjointTrees (ts @ [t]) \<longleftrightarrow> disjointTrees ts \<and> nodeIds t \<inter> (\<Union>k\<in>set ts. nodeIds k) = {}"
  by (induction ts) auto

lemma disjointTrees_nth:
  "disjointTrees ts \<Longrightarrow> a < b \<Longrightarrow> b < length ts \<Longrightarrow> nodeIds (ts ! a) \<inter> nodeIds (ts ! b) = {}"
proof (induction ts arbitrary: a b)
  case Nil
  then show ?case by simp
next
  case (Cons t ts)
  show ?case
  proof (cases a)
    case 0
    with Cons.prems obtain b' where b: "b = Suc b'" "b' < length ts" by (cases b) auto
    then have "ts ! b' \<in> set ts" by simp
    with Cons.prems(1) have "nodeIds t \<inter> nodeIds (ts ! b') = {}" by auto
    with 0 b show ?thesis by simp
  next
    case (Suc a')
    with Cons.prems obtain b' where b: "b = Suc b'" "b' < length ts" "a' < b'" by (cases b) auto
    with Cons.IH[of a' b'] Cons.prems(1) Suc show ?thesis by simp
  qed
qed

lemma disjointTrees_nth_neq:
  assumes "disjointTrees ts" "a < length ts" "b < length ts" "a \<noteq> b"
  shows "nodeIds (ts ! a) \<inter> nodeIds (ts ! b) = {}"
proof (cases "a < b")
  case True
  then show ?thesis using assms disjointTrees_nth by blast
next
  case False
  then have "b < a" using assms(4) by simp
  then have "nodeIds (ts ! b) \<inter> nodeIds (ts ! a) = {}" using assms disjointTrees_nth by blast
  then show ?thesis by blast
qed

lemma buildTree_self:
  assumes ok: "pmOk pm" and "buildTree n D pm visited i = Some (r, v)"
  shows "i \<in> v"
proof (cases n)
  case 0
  with assms show ?thesis by simp
next
  case (Suc m)
  show ?thesis
  proof (cases "i \<in> visited")
    case True
    with assms Suc show ?thesis by simp
  next
    case False
    show ?thesis
    proof (cases "pm i")
      case None
      with False assms Suc show ?thesis by auto
    next
      case (Some p)
      let ?ps = "filter (\<lambda>q. pid q \<notin> insert i visited) (getFullPartners pm p)"
      let ?v2 = "foldl (\<lambda>v q. insert (pid q) v) (insert i visited) ?ps"
      from assms(2) Suc False Some obtain ks where
        ks: "buildChildren m D pm ?v2 (jsSort (childCmp D pm) (childIdsOf p ?ps)) = Some (ks, v)"
        by (auto simp: Let_def split: option.splits)
      have "?v2 \<subseteq> v"
        using buildChildren_ids[OF buildTree_ids[OF ok] ks] by simp
      moreover have "i \<in> ?v2" by (simp add: foldl_insert_visited)
      ultimately show ?thesis by blast
    qed
  qed
qed

lemma buildRoot_step:
  assumes ok: "pmOk pm" and inv: "rootsInv pm s" and step: "buildRoot n D pm s p = Some s'"
  shows "rootsInv pm s' \<and> snd s \<subseteq> snd s' \<and> pid p \<in> snd s'"
proof -
  obtain roots visited where s: "s = (roots, visited)" by (cases s)
  show ?thesis
  proof (cases "pid p \<in> visited")
    case True
    with step have "s' = (roots, visited)" by (simp add: buildRoot_def s)
    with True inv show ?thesis by (simp add: s)
  next
    case False
    with step obtain r v where
      bt: "buildTree n D pm visited (pid p) = Some (r, v)"
      and s': "s' = ((case r of None \<Rightarrow> roots | Some nd \<Rightarrow> roots @ [nd]), v)"
      by (auto simp: buildRoot_def s split: option.splits)
    from buildTree_ids[OF ok bt]
    have a: "visited \<subseteq> v" "treeIds r \<subseteq> v - visited" "(v - visited) \<inter> dom pm \<subseteq> treeIds r"
      by auto
    from inv have i: "disjointTrees roots" "(\<Union>k\<in>set roots. nodeIds k) \<subseteq> visited"
      "visited \<inter> dom pm \<subseteq> (\<Union>k\<in>set roots. nodeIds k)"
      by (auto simp: rootsInv_def s)
    define R where "R = (\<Union>k\<in>set roots. nodeIds k)"
    have ids: "(\<Union>k\<in>set (fst s'). nodeIds k) = R \<union> treeIds r"
      by (cases r) (auto simp: s' treeIds_def R_def)
    have d: "disjointTrees (fst s')"
    proof (cases r)
      case None
      then show ?thesis using i(1) by (simp add: s')
    next
      case (Some nd)
      then have "nodeIds nd \<inter> R = {}"
        using a(2) i(2) by (auto simp: treeIds_def R_def)
      then show ?thesis using i(1) Some by (simp add: s' disjointTrees_snoc R_def)
    qed
    have 2: "R \<union> treeIds r \<subseteq> v" using a(1,2) i(2) unfolding R_def by blast
    have 3: "v \<inter> dom pm \<subseteq> R \<union> treeIds r" using a(3) i(3) unfolding R_def by blast
    have "pid p \<in> v" by (rule buildTree_self[OF ok bt])
    with d 2 3 a(1) show ?thesis
      unfolding rootsInv_def ids by (simp add: s s')
  qed
qed

lemma buildRoots_fold:
  assumes ok: "pmOk pm"
  shows "rootsInv pm s \<Longrightarrow> foldOpt (buildRoot n D pm) s xs = Some s' \<Longrightarrow>
         rootsInv pm s' \<and> snd s \<subseteq> snd s' \<and> pid ` set xs \<subseteq> snd s'"
proof (induction xs arbitrary: s)
  case Nil
  then show ?case by simp
next
  case (Cons a xs)
  from Cons.prems(2) obtain s1 where s1: "buildRoot n D pm s a = Some s1"
    and rest: "foldOpt (buildRoot n D pm) s1 xs = Some s'"
    by (auto split: option.splits)
  from buildRoot_step[OF ok Cons.prems(1) s1]
  have 1: "rootsInv pm s1" "snd s \<subseteq> snd s1" "pid a \<in> snd s1" by auto
  from Cons.IH[OF 1(1) rest]
  have 2: "rootsInv pm s'" "snd s1 \<subseteq> snd s'" "pid ` set xs \<subseteq> snd s'" by auto
  have "pid ` set (a # xs) \<subseteq> snd s'" using 1(3) 2(2,3) by auto
  moreover have "snd s \<subseteq> snd s'" using 1(2) 2(2) by blast
  ultimately show ?case using 2(1) by simp
qed

lemma buildRoots_spec:
  assumes ok: "pmOk pm" and "buildRoots n D pm xs = Some (roots, V)"
  shows "disjointTrees roots" "(\<Union>k\<in>set roots. nodeIds k) \<subseteq> V"
    "V \<inter> dom pm \<subseteq> (\<Union>k\<in>set roots. nodeIds k)" "pid ` set xs \<subseteq> V"
proof -
  have "rootsInv pm ([], {})" by (simp add: rootsInv_def)
  from buildRoots_fold[OF ok this assms(2)[unfolded buildRoots_def]]
  show "disjointTrees roots" "(\<Union>k\<in>set roots. nodeIds k) \<subseteq> V"
    "V \<inter> dom pm \<subseteq> (\<Union>k\<in>set roots. nodeIds k)" "pid ` set xs \<subseteq> V"
    by (auto simp: rootsInv_def)
qed

section \<open>The placement loop: rounds and keys\<close>

lemma finite_placedIdx: "finite (placedIdx ls)"
  by (simp add: placedIdx_def)

lemma placedIdx_update:
  assumes "k < length ls"
  shows "placedIdx (ls[k := (ls ! k)\<lparr>placed := True, finalX := x\<rparr>]) = insert k (placedIdx ls)"
  using assms by (auto simp: placedIdx_def nth_list_update)

lemma schedInv_step:
  assumes inv: "schedInv ls0 c ls ps" and c: "c < 100" and step: "placeRound ls ps = Inr (ls', ps')"
  shows "schedInv ls0 (c + 1) ls' ps'"
proof -
  from step obtain k dX where k: "k < length ls" "\<not> placed (ls ! k)"
    and ls': "ls' = ls[k := (ls ! k)\<lparr>placed := True, finalX := choosePlaceX ls ps (ls ! k) dX\<rparr>]"
    and ps': "ps' = commitPositions (choosePlaceX ls ps (ls ! k) dX) (relativePositions (ls ! k)) ps"
    by (rule placeRound_InrD)
  from inv have i: "length ls = length ls0"
    "\<forall>j<length ls. relativePositions (ls ! j) = relativePositions (ls0 ! j)"
    "card (placedIdx ls) = c"
    "keysOf ps = (\<Union>j\<in>placedIdx ls. keysOf (relativePositions (ls0 ! j)))"
    "distinct (map fst ps)"
    by (auto simp: schedInv_def)
  have idx: "placedIdx ls' = insert k (placedIdx ls)"
    unfolding ls' by (rule placedIdx_update[OF k(1)])
  have notin: "k \<notin> placedIdx ls" using k(2) by (simp add: placedIdx_def)
  have 1: "length ls' = length ls0" by (simp add: ls' i(1))
  have 2: "\<forall>j<length ls'. relativePositions (ls' ! j) = relativePositions (ls0 ! j)"
  proof (intro allI impI)
    fix j assume "j < length ls'"
    then have j: "j < length ls" by (simp add: ls')
    show "relativePositions (ls' ! j) = relativePositions (ls0 ! j)"
      using i(2) j k(1) by (cases "j = k") (simp_all add: ls')
  qed
  have 3: "card (placedIdx ls') = c + 1"
    unfolding idx using notin i(3) finite_placedIdx by simp
  have rel: "relativePositions (ls ! k) = relativePositions (ls0 ! k)" using i(2) k(1) by simp
  have 4: "keysOf ps' = (\<Union>j\<in>placedIdx ls'. keysOf (relativePositions (ls0 ! j)))"
    unfolding idx ps' commitPositions_keys i(4) rel by auto
  have 5: "distinct (map fst ps')"
    unfolding ps' by (rule commitPositions_distinct[OF i(5)])
  from 1 2 3 4 5 c show ?thesis by (simp add: schedInv_def)
qed

lemma schedInv_init:
  assumes "\<forall>l\<in>set ls0. \<not> placed l"
  shows "schedInv ls0 0 ls0 []"
proof -
  have "placedIdx ls0 = {}" using assms by (auto simp: placedIdx_def)
  then show ?thesis by (simp add: schedInv_def keysOf_Nil)
qed

lemma placeLoop_schedInv:
  assumes "\<forall>l\<in>set ls0. \<not> placed l" and "placeLoop 0 ls0 [] = Inr (c, ls, ps)"
  shows "schedInv ls0 c ls ps"
  by (rule placeLoop_invariant[where I = "schedInv ls0", OF schedInv_init[OF assms(1)] _ assms(2)])
     (rule schedInv_step)

lemma placeLoop_exit:
  "placeLoop c ls ps = Inr (c', ls', ps') \<Longrightarrow> (\<forall>l\<in>set ls'. placed l) \<or> 100 \<le> c'"
proof (induction c ls ps rule: placeLoop.induct)
  case (1 c ls ps)
  show ?case
  proof (cases "list_ex (\<lambda>l. \<not> placed l) ls \<and> c < 100")
    case True
    then obtain ls1 ps1 where r: "placeRound ls ps = Inr (ls1, ps1)"
      using placeRound_no_error[of ls ps] by auto
    have "placeLoop (c + 1) ls1 ps1 = Inr (c', ls', ps')"
      using "1.prems" True r by (subst (asm) placeLoop.simps) simp
    then show ?thesis
      using "1.IH"[OF True r refl] by simp
  next
    case False
    then have "placeLoop c ls ps = Inr (c, ls, ps)"
      by (subst placeLoop.simps) auto
    with "1.prems" False show ?thesis
      by (auto simp: list_ex_iff)
  qed
qed

lemma initial_unplaced:
  "\<forall>l\<in>set (map (\<lambda>nd. identifyAnchors pm (makeLayout nd)) roots). \<not> placed l"
  by (simp add: identifyAnchors_def makeLayout_def)

lemma initial_relpos:
  "keysOf (relativePositions (identifyAnchors pm (makeLayout nd))) = nodeIds nd"
  by (simp add: identifyAnchors_def makeLayout_keys)

section \<open>The run of \<^verbatim>\<open>calculateLayout\<close>\<close>

lemma calculateLayout_run:
  assumes "input \<noteq> []"
  obtains out clusters V where
    "calculateLayout D input = Inr out"
    "buildRoots (Suc (length (repairLinks input))) D (personMap (repairLinks input))
       (concat clusters @ repairLinks input) = Some (outRoots out, V)"
    "placeLoop 0 (map (\<lambda>nd. identifyAnchors (personMap (repairLinks input)) (makeLayout nd)) (outRoots out)) []
       = Inr (outRounds out, outLayouts out, outPositions out)"
    "outGenerations out = generations (repairLinks input)"
proof -
  let ?people = "repairLinks input"
  let ?pm = "personMap ?people"
  let ?roots = "filter (\<lambda>p. map_of (generations ?people) (pid p) = Some 0) ?people"
  obtain cs where cs: "rootClusters (Suc (length ?people)) ?pm ?roots = Some cs"
    using rootClusters_total by blast
  obtain rs V where rs: "buildRoots (Suc (length ?people)) D ?pm (concat cs @ ?people) = Some (rs, V)"
    using buildRoots_total[of ?people D "concat cs @ ?people"] by auto
  obtain c ls ps where pl: "placeLoop 0 (map (\<lambda>nd. identifyAnchors ?pm (makeLayout nd)) rs) [] = Inr (c, ls, ps)"
    using placeLoop_returns[of 0 "map (\<lambda>nd. identifyAnchors ?pm (makeLayout nd)) rs" "[]"] by auto
  let ?out = "\<lparr>outGenerations = generations ?people, outRoots = rs, outLayouts = ls,
                outRounds = c, outPositions = ps\<rparr>"
  have "calculateLayout D input = Inr ?out"
    using assms cs rs pl by (simp add: calculateLayout_def Let_def)
  then show ?thesis
    using rs pl by (intro that[of ?out cs V]) simp_all
qed

lemma calculateLayout_empty:
  "calculateLayout D [] =
     Inr \<lparr>outGenerations = [], outRoots = [], outLayouts = [], outRounds = 0, outPositions = []\<rparr>"
  by (simp add: calculateLayout_def)

lemma map_pid_update_parents:
  "j < length st \<Longrightarrow> map pid (st[j := (st ! j)\<lparr>parents := xs\<rparr>]) = map pid st"
  by (simp add: list_eq_iff_nth_eq nth_list_update)

lemma map_pid_update_children:
  "j < length st \<Longrightarrow> map pid (st[j := (st ! j)\<lparr>children := xs\<rparr>]) = map pid st"
  by (simp add: list_eq_iff_nth_eq nth_list_update)

lemma map_pid_update_any:
  "map pid (st[j := (st ! j)\<lparr>parents := xs\<rparr>]) = map pid st"
  "map pid (st[j := (st ! j)\<lparr>children := xs\<rparr>]) = map pid st"
proof -
  show "map pid (st[j := (st ! j)\<lparr>parents := xs\<rparr>]) = map pid st"
    by (cases "j < length st") (simp_all add: map_pid_update_parents list_update_beyond)
  show "map pid (st[j := (st ! j)\<lparr>children := xs\<rparr>]) = map pid st"
    by (cases "j < length st") (simp_all add: map_pid_update_children list_update_beyond)
qed

lemma ensureParent_ids: "map pid (ensureParent ix me st c) = map pid st"
  by (simp add: ensureParent_def map_pid_update_any split: option.splits)

lemma ensureChild_ids: "map pid (ensureChild ix me st c) = map pid st"
  by (simp add: ensureChild_def map_pid_update_any split: option.splits)

lemma foldl_ids:
  assumes "\<And>st c. map pid (f st c) = map pid st"
  shows "map pid (foldl f st cs) = map pid st"
  by (induction cs arbitrary: st) (simp_all add: assms)

lemma repairPerson_ids: "map pid (repairPerson ix st i) = map pid st"
  by (simp add: repairPerson_def Let_def foldl_ids ensureParent_ids ensureChild_ids)

lemma repairLinks_ids: "map pid (repairLinks people) = map pid people"
  unfolding repairLinks_def by (rule foldl_ids) (rule repairPerson_ids)

lemma repairLinks_pid_set: "pid ` set (repairLinks people) = pid ` set people"
  using repairLinks_ids[of people] by (metis set_map)

lemma keysOf_map_of: "map_of m k = None \<longleftrightarrow> k \<notin> keysOf m"
  by (simp add: keysOf_def map_of_None_keys)

lemma placedIdx_all:
  assumes "card (placedIdx ls) = length ls"
  shows "placedIdx ls = {..<length ls}"
proof -
  have "placedIdx ls \<subseteq> {..<length ls}" by (auto simp: placedIdx_def)
  then show ?thesis
    using assms by (intro card_subset_eq) simp_all
qed

lemma placedIdx_le: "card (placedIdx ls) \<le> length ls"
proof -
  have "card (placedIdx ls) \<le> card {..<length ls}"
    by (intro card_mono) (auto simp: placedIdx_def)
  then show ?thesis by simp
qed

text \<open>The facts about a run that the claims on the scheduler use.\<close>

lemma run_facts:
  assumes "input \<noteq> []"
  obtains out where
    "calculateLayout D input = Inr out"
    "schedInv (map (\<lambda>nd. identifyAnchors (personMap (repairLinks input)) (makeLayout nd)) (outRoots out))
       (outRounds out) (outLayouts out) (outPositions out)"
    "(\<forall>l\<in>set (outLayouts out). placed l) \<or> 100 \<le> outRounds out"
    "disjointTrees (outRoots out)"
    "pid ` set input \<subseteq> (\<Union>k\<in>set (outRoots out). nodeIds k)"
    "yInvariant (outLayouts out) (outPositions out)"
    "\<exists>xs V. buildRoots (Suc (length (repairLinks input))) D (personMap (repairLinks input)) xs
             = Some (outRoots out, V)"
proof -
  let ?people = "repairLinks input"
  let ?pm = "personMap ?people"
  from assms obtain out clusters V where
    out: "calculateLayout D input = Inr out"
    and br: "buildRoots (Suc (length ?people)) D ?pm (concat clusters @ ?people) = Some (outRoots out, V)"
    and pl: "placeLoop 0 (map (\<lambda>nd. identifyAnchors ?pm (makeLayout nd)) (outRoots out)) []
       = Inr (outRounds out, outLayouts out, outPositions out)"
    by (rule calculateLayout_run)
  let ?ls0 = "map (\<lambda>nd. identifyAnchors ?pm (makeLayout nd)) (outRoots out)"
  have 1: "schedInv ?ls0 (outRounds out) (outLayouts out) (outPositions out)"
    by (rule placeLoop_schedInv[OF initial_unplaced pl])
  have 2: "(\<forall>l\<in>set (outLayouts out). placed l) \<or> 100 \<le> outRounds out"
    by (rule placeLoop_exit[OF pl])
  note spec = buildRoots_spec[OF pmOk_personMap br]
  have "pid ` set ?people \<subseteq> V \<inter> dom ?pm"
    using spec(4) by (auto simp: dom_personMap)
  then have 4: "pid ` set input \<subseteq> (\<Union>k\<in>set (outRoots out). nodeIds k)"
    using spec(3) unfolding repairLinks_pid_set by blast
  have init: "yInvariant ?ls0 []"
    using makeLayout_y_nonneg by (auto simp: yInvariant_def identifyAnchors_def)
  have 5: "yInvariant (outLayouts out) (outPositions out)"
    by (rule placeLoop_invariant[where I = "\<lambda>c. yInvariant", OF init _ pl]) (rule yInvariant_step)
  have 6: "\<exists>xs V. buildRoots (Suc (length ?people)) D ?pm xs = Some (outRoots out, V)"
    using br by blast
  from out 1 2 spec(1) 4 5 6 show ?thesis by (rule that)
qed

section \<open>People without relationships\<close>

lemma crowd_isolated: "p \<in> set (crowd n) \<Longrightarrow> isolated p"
  by (auto simp: crowd_def isolated_def mkPerson_def)

lemma crowd_distinct: "distinct (map pid (crowd 101))"
  by code_simp

lemma crowd_length: "length (crowd n) = n"
  by (simp add: crowd_def)

lemma repairPerson_isolated:
  "isolated (st ! i) \<Longrightarrow> repairPerson ix st i = st"
  by (simp add: repairPerson_def isolated_def)

lemma repairLinks_isolated_aux:
  "\<forall>p\<in>set st. isolated p \<Longrightarrow> set is \<subseteq> {..<length st} \<Longrightarrow> foldl (repairPerson ix) st is = st"
  by (induction "is") (simp_all add: repairPerson_isolated)

lemma repairLinks_isolated: "\<forall>p\<in>set people. isolated p \<Longrightarrow> repairLinks people = people"
  unfolding repairLinks_def by (rule repairLinks_isolated_aux) auto

lemma getFullPartners_isolated: "isolated p \<Longrightarrow> getFullPartners pm p = []"
  by (simp add: getFullPartners_def isolated_def newSet_def)

lemma buildTree_isolated:
  assumes iso: "\<forall>i p. pm i = Some p \<longrightarrow> isolated p" and ok: "pmOk pm"
    and bt: "buildTree n D pm visited i = Some (Some nd, v)"
  shows "nodeIds nd = {i}"
proof (cases n)
  case 0
  with bt show ?thesis by simp
next
  case (Suc m)
  from bt[unfolded Suc] obtain p kids where p: "pm i = Some p"
    and kids: "buildChildren m D pm
       (foldl (\<lambda>v q. insert (pid q) v) (insert i visited)
          (filter (\<lambda>q. pid q \<notin> insert i visited) (getFullPartners pm p)))
       (jsSort (childCmp D pm)
          (childIdsOf p (filter (\<lambda>q. pid q \<notin> insert i visited) (getFullPartners pm p))))
     = Some (kids, v)"
    and nd: "nd = LayoutNode p (filter (\<lambda>q. pid q \<notin> insert i visited) (getFullPartners pm p)) kids
            ((1 + of_nat (length (filter (\<lambda>q. pid q \<notin> insert i visited) (getFullPartners pm p)))) * nodeWidth
              + ((1 + of_nat (length (filter (\<lambda>q. pid q \<notin> insert i visited) (getFullPartners pm p)))) - 1) * horizontalGap)
            (max ((1 + of_nat (length (filter (\<lambda>q. pid q \<notin> insert i visited) (getFullPartners pm p)))) * nodeWidth
              + ((1 + of_nat (length (filter (\<lambda>q. pid q \<notin> insert i visited) (getFullPartners pm p)))) - 1) * horizontalGap)
              (childrenWidth kids))"
    by (rule buildTree_Suc_SomeD)
  have ip: "isolated p" using iso p by blast
  have gp: "getFullPartners pm p = []" by (rule getFullPartners_isolated[OF ip])
  have "childIdsOf p [] = []" using ip by (simp add: childIdsOf_def isolated_def)
  with kids gp have "kids = []" by (simp add: jsSort_def)
  moreover have "pid p = i" using ok p by (simp add: pmOk_def)
  ultimately show ?thesis by (simp add: nd gp)
qed

lemma buildRoots_isolated_fold:
  assumes iso: "\<forall>i p. pm i = Some p \<longrightarrow> isolated p" and ok: "pmOk pm"
  shows "\<forall>t\<in>set (fst s). card (nodeIds t) = 1 \<Longrightarrow> foldOpt (buildRoot n D pm) s xs = Some s' \<Longrightarrow>
         \<forall>t\<in>set (fst s'). card (nodeIds t) = 1"
proof (induction xs arbitrary: s)
  case Nil
  then show ?case by simp
next
  case (Cons a xs)
  from Cons.prems(2) obtain s1 where s1: "buildRoot n D pm s a = Some s1"
    and rest: "foldOpt (buildRoot n D pm) s1 xs = Some s'"
    by (auto split: option.splits)
  obtain roots visited where s: "s = (roots, visited)" by (cases s)
  have "\<forall>t\<in>set (fst s1). card (nodeIds t) = 1"
  proof (cases "pid a \<in> visited")
    case True
    with s1 Cons.prems(1) show ?thesis by (auto simp: buildRoot_def s)
  next
    case False
    with s1 obtain r v where bt: "buildTree n D pm visited (pid a) = Some (r, v)"
      and s1': "s1 = ((case r of None \<Rightarrow> roots | Some nd \<Rightarrow> roots @ [nd]), v)"
      by (auto simp: buildRoot_def s split: option.splits)
    show ?thesis
    proof (cases r)
      case None
      with s1' Cons.prems(1) show ?thesis by (simp add: s)
    next
      case (Some nd)
      with bt have "nodeIds nd = {pid a}" using buildTree_isolated[OF iso ok, of n D visited "pid a" nd v] by simp
      with s1' Some Cons.prems(1) show ?thesis by (auto simp: s)
    qed
  qed
  from Cons.IH[OF this rest] show ?case .
qed

lemma card_UN_singletons:
  assumes "\<forall>t\<in>set ts. card (nodeIds t) = 1"
  shows "card (\<Union>t\<in>set ts. nodeIds t) \<le> length ts"
  using assms
proof (induction ts)
  case Nil
  show ?case by simp
next
  case (Cons t ts)
  have fin: "finite (\<Union>k\<in>set ts. nodeIds k)"
    using Cons.prems by (auto intro!: finite_UN_I card_ge_0_finite)
  have "finite (nodeIds t)" using Cons.prems by (auto intro: card_ge_0_finite)
  then have "card (nodeIds t \<union> (\<Union>k\<in>set ts. nodeIds k)) \<le> card (nodeIds t) + card (\<Union>k\<in>set ts. nodeIds k)"
    by (rule_tac card_Un_le)
  also have "\<dots> \<le> 1 + length ts" using Cons by simp
  finally show ?case by simp
qed

lemma card_UN_placed:
  assumes "\<forall>t\<in>set roots. card (nodeIds t) = 1" and "I \<subseteq> {..<length roots}"
  shows "card (\<Union>k\<in>I. nodeIds (roots ! k)) \<le> card I"
proof -
  have fin: "finite I" using assms(2) finite_subset by blast
  have "card (\<Union>k\<in>I. nodeIds (roots ! k)) \<le> (\<Sum>k\<in>I. card (nodeIds (roots ! k)))"
    by (rule card_UN_le[OF fin])
  also have "\<dots> = (\<Sum>k\<in>I. 1)"
    using assms by (intro sum.cong) auto
  finally show ?thesis by simp
qed

lemma isolated_overflow:
  assumes iso: "\<forall>p\<in>set input. isolated p" and dist: "distinct (map pid input)"
    and many: "100 < length input" and out: "calculateLayout D input = Inr out"
  shows "\<exists>l\<in>set (outLayouts out). \<not> placed l \<and> keysOf (relativePositions l) \<noteq> {}"
    and "\<exists>p\<in>set input. map_of (outPositions out) (pid p) = None"
proof -
  have ne: "input \<noteq> []" using many by auto
  have rep: "repairLinks input = input" by (rule repairLinks_isolated[OF iso])
  let ?pm = "personMap input"
  let ?ls0 = "map (\<lambda>nd. identifyAnchors ?pm (makeLayout nd)) (outRoots out)"
  from ne obtain out' where out': "calculateLayout D input = Inr out'"
    and inv': "schedInv (map (\<lambda>nd. identifyAnchors (personMap (repairLinks input)) (makeLayout nd)) (outRoots out'))
       (outRounds out') (outLayouts out') (outPositions out')"
    and cov': "pid ` set input \<subseteq> (\<Union>k\<in>set (outRoots out'). nodeIds k)"
    and br': "\<exists>xs V. buildRoots (Suc (length (repairLinks input))) D (personMap (repairLinks input)) xs
             = Some (outRoots out', V)"
    by (rule run_facts)
  from out out' have eq: "out' = out" by simp
  note inv = inv'[unfolded eq rep] and cov = cov'[unfolded eq] and br = br'[unfolded eq rep]
  from br obtain xs V where xs: "foldOpt (buildRoot (Suc (length input)) D ?pm) ([], {}) xs = Some (outRoots out, V)"
    by (auto simp: buildRoots_def)
  have isopm: "\<forall>i p. ?pm i = Some p \<longrightarrow> isolated p"
    using iso by (auto dest: personMap_SomeD)
  have one: "\<forall>t\<in>set (outRoots out). card (nodeIds t) = 1"
    using buildRoots_isolated_fold[OF isopm pmOk_personMap _ xs] by simp
  have finU: "finite (\<Union>k\<in>set (outRoots out). nodeIds k)"
    using one by (auto intro!: finite_UN_I card_ge_0_finite)
  have cardin: "card (pid ` set input) = length input"
    using distinct_card[OF dist] by simp
  have "length input = card (pid ` set input)"
    using cardin by simp
  also have "\<dots> \<le> card (\<Union>k\<in>set (outRoots out). nodeIds k)"
    by (rule card_mono[OF finU cov])
  also have "\<dots> \<le> length (outRoots out)"
    by (rule card_UN_singletons[OF one])
  finally have roots: "100 < length (outRoots out)" using many by simp
  from inv have len: "length (outLayouts out) = length (outRoots out)"
    and card: "card (placedIdx (outLayouts out)) = outRounds out" and le: "outRounds out \<le> 100"
    and rel: "\<forall>k<length (outLayouts out). relativePositions (outLayouts out ! k) = relativePositions (?ls0 ! k)"
    and keys: "keysOf (outPositions out) = (\<Union>k\<in>placedIdx (outLayouts out). keysOf (relativePositions (?ls0 ! k)))"
    unfolding schedInv_def by simp_all
  have less: "card (placedIdx (outLayouts out)) < length (outLayouts out)"
    using card le roots len by simp
  have "\<not> (\<forall>k<length (outLayouts out). placed (outLayouts out ! k))"
  proof
    assume "\<forall>k<length (outLayouts out). placed (outLayouts out ! k)"
    then have "placedIdx (outLayouts out) = {..<length (outLayouts out)}"
      unfolding placedIdx_def by blast
    then have "card (placedIdx (outLayouts out)) = length (outLayouts out)" by simp
    with less show False by simp
  qed
  then obtain k where k: "k < length (outLayouts out)" "\<not> placed (outLayouts out ! k)"
    by blast
  have "keysOf (relativePositions (outLayouts out ! k)) = nodeIds (outRoots out ! k)"
    using rel k(1) len by (simp add: initial_relpos)
  moreover have "card (nodeIds (outRoots out ! k)) = 1" using one k(1) len by simp
  ultimately have "keysOf (relativePositions (outLayouts out ! k)) \<noteq> {}" by auto
  with k show "\<exists>l\<in>set (outLayouts out). \<not> placed l \<and> keysOf (relativePositions l) \<noteq> {}"
    using nth_mem[OF k(1)] by blast
  have sub: "placedIdx (outLayouts out) \<subseteq> {..<length (outRoots out)}"
    using len by (auto simp: placedIdx_def)
  have "\<And>j. j \<in> placedIdx (outLayouts out) \<Longrightarrow>
           keysOf (relativePositions (?ls0 ! j)) = nodeIds (outRoots out ! j)"
    using sub by (auto simp: initial_relpos)
  then have keys': "keysOf (outPositions out) = (\<Union>k\<in>placedIdx (outLayouts out). nodeIds (outRoots out ! k))"
    unfolding keys by simp
  have "card (keysOf (outPositions out)) \<le> card (placedIdx (outLayouts out))"
    unfolding keys' by (rule card_UN_placed[OF one sub])
  then have small: "card (keysOf (outPositions out)) \<le> 100" using card le by simp
  have "\<not> pid ` set input \<subseteq> keysOf (outPositions out)"
  proof
    assume "pid ` set input \<subseteq> keysOf (outPositions out)"
    then have "card (pid ` set input) \<le> card (keysOf (outPositions out))"
      by (intro card_mono) (simp_all add: keysOf_def)
    then show False using small many cardin by simp
  qed
  then show "\<exists>p\<in>set input. map_of (outPositions out) (pid p) = None"
    by (auto simp: keysOf_map_of)
qed


lemma map_of_commitPositions:
  "map_of (commitPositions placeX rel ps) i =
     (case map_of (rev rel) i of Some r \<Rightarrow> Some (shiftBy placeX r) | None \<Rightarrow> map_of ps i)"
  unfolding commitPositions_def
proof (induction rel arbitrary: ps)
  case Nil
  show ?case by simp
next
  case (Cons a rel)
  obtain j r where a: "a = (j, r)" by (cases a)
  show ?case
    unfolding a using Cons.IH[of "AList.update j \<lparr>posX = placeX + posX r, posY = 100 + posY r\<rparr> ps"]
    by (auto simp: update_conv' map_add_def shiftBy_def split: option.splits)
qed

lemma map_of_rev_distinct: "distinct (map fst xs) \<Longrightarrow> map_of (rev xs) = map_of xs"
proof -
  assume d: "distinct (map fst xs)"
  then have d': "distinct (map fst (rev xs))" by (simp add: rev_map[symmetric])
  show ?thesis
  proof
    fix k
    show "map_of (rev xs) k = map_of xs k"
    proof (cases "map_of xs k")
      case None
      then have "k \<notin> fst ` set xs" by (simp add: map_of_eq_None_iff)
      then have "k \<notin> fst ` set (rev xs)" by simp
      then have "map_of (rev xs) k = None" by (simp add: map_of_eq_None_iff)
      with None show ?thesis by simp
    next
      case (Some v)
      then have "(k, v) \<in> set xs" by (rule map_of_SomeD)
      then have "(k, v) \<in> set (rev xs)" by simp
      with d' have "map_of (rev xs) k = Some v" by (rule map_of_is_SomeI)
      with Some show ?thesis by simp
    qed
  qed
qed

lemma commitPositions_written:
  assumes "distinct (map fst rel)" "e \<in> set rel"
  shows "map_of (commitPositions placeX rel ps) (fst e) = Some (shiftBy placeX (snd e))"
proof -
  from assms have "map_of rel (fst e) = Some (snd e)" by (cases e) simp
  then show ?thesis
    by (simp add: map_of_commitPositions map_of_rev_distinct[OF assms(1)])
qed

lemma commitPositions_other:
  assumes "i \<notin> keysOf rel"
  shows "map_of (commitPositions placeX rel ps) i = map_of ps i"
proof -
  from assms have "i \<notin> fst ` set (rev rel)" by (simp add: keysOf_def)
  then have "map_of (rev rel) i = None" by (simp add: map_of_eq_None_iff)
  then show ?thesis by (simp add: map_of_commitPositions)
qed

lemma placePartners_distinct:
  "distinct (map fst m) \<Longrightarrow> distinct (map fst (placePartners c y ps m))"
proof -
  have "distinct (map fst m) \<Longrightarrow>
        distinct (map fst (fst (foldl (\<lambda>(m', cx) q. (AList.update (pid q) \<lparr>posX = cx, posY = y\<rparr> m', cx + nodeWidth + horizontalGap))
                (m, c) ps)))"
    by (induction ps arbitrary: m c) (simp_all add: distinct_update_keys)
  then show "distinct (map fst m) \<Longrightarrow> distinct (map fst (placePartners c y ps m))"
    by (simp add: placePartners_def)
qed

lemma calcRelative_distinct:
  "distinct (map fst m) \<Longrightarrow> distinct (map fst (calcRelative nd x y m))"
  and calcRelativeChildren_distinct:
  "distinct (map fst m) \<Longrightarrow> distinct (map fst (calcRelativeChildren kids x y m))"
proof (induction nd x y m and kids x y m rule: calcRelative_calcRelativeChildren.induct)
  case (1 p ps kids cw tw x y m)
  have "distinct (map fst (placePartners (x + (tw - cw) / 2 + nodeWidth + horizontalGap) y ps
          (AList.update (pid p) \<lparr>posX = x + (tw - cw) / 2, posY = y\<rparr> m)))"
    by (intro placePartners_distinct distinct_update_keys "1.prems")
  from "1.IH"[OF refl refl refl refl this] show ?case by (simp add: Let_def)
next
  case (2 childX y m)
  then show ?case by simp
next
  case (3 c cs childX y m)
  from "3.IH"(2)[OF "3.IH"(1)[OF "3.prems"]] show ?case by simp
qed

lemma initial_distinct:
  "distinct (map fst (relativePositions (identifyAnchors pm (makeLayout nd))))"
  using calcRelative_distinct[of "[]" nd 0 0] by (simp add: identifyAnchors_def makeLayout_def)


lemma writtenInv_step:
  assumes sched: "schedInv ls0 c ls ps" and wr: "writtenInv ls0 ls ps"
    and dis: "\<forall>a<length ls0. \<forall>b<length ls0. a \<noteq> b \<longrightarrow>
                keysOf (relativePositions (ls0 ! a)) \<inter> keysOf (relativePositions (ls0 ! b)) = {}"
    and dst: "\<forall>l\<in>set ls0. distinct (map fst (relativePositions l))"
    and step: "placeRound ls ps = Inr (ls', ps')"
  shows "writtenInv ls0 ls' ps'"
proof -
  from step obtain k dX where k: "k < length ls" "\<not> placed (ls ! k)"
    and ls': "ls' = ls[k := (ls ! k)\<lparr>placed := True, finalX := choosePlaceX ls ps (ls ! k) dX\<rparr>]"
    and ps': "ps' = commitPositions (choosePlaceX ls ps (ls ! k) dX) (relativePositions (ls ! k)) ps"
    by (rule placeRound_InrD)
  define X where "X = choosePlaceX ls ps (ls ! k) dX"
  note ls' = ls'[folded X_def] and ps' = ps'[folded X_def]
  from sched have len: "length ls = length ls0"
    and rel: "\<forall>j<length ls. relativePositions (ls ! j) = relativePositions (ls0 ! j)"
    by (auto simp: schedInv_def)
  from wr have same: "\<forall>j<length ls. ls ! j = (ls0 ! j)\<lparr>placed := placed (ls ! j), finalX := finalX (ls ! j)\<rparr>"
    and old: "\<forall>j<length ls. placed (ls ! j) \<longrightarrow>
        (\<forall>e\<in>set (relativePositions (ls ! j)). map_of ps (fst e) = Some (shiftBy (finalX (ls ! j)) (snd e)))"
    by (auto simp: writtenInv_def)
  have 1: "\<forall>j<length ls'. ls' ! j = (ls0 ! j)\<lparr>placed := placed (ls' ! j), finalX := finalX (ls' ! j)\<rparr>"
  proof (intro allI impI)
    fix j assume "j < length ls'"
    then have j: "j < length ls" by (simp add: ls')
    show "ls' ! j = (ls0 ! j)\<lparr>placed := placed (ls' ! j), finalX := finalX (ls' ! j)\<rparr>"
    proof (cases "j = k")
      case True
      from same k(1) have eq: "ls ! k = (ls0 ! k)\<lparr>placed := placed (ls ! k), finalX := finalX (ls ! k)\<rparr>" by simp
      have "(ls ! k)\<lparr>placed := True, finalX := X\<rparr>
              = ((ls0 ! k)\<lparr>placed := placed (ls ! k), finalX := finalX (ls ! k)\<rparr>)\<lparr>placed := True, finalX := X\<rparr>"
        using arg_cong[OF eq, of "\<lambda>l. l\<lparr>placed := True, finalX := X\<rparr>"] .
      then have "(ls ! k)\<lparr>placed := True, finalX := X\<rparr> = (ls0 ! k)\<lparr>placed := True, finalX := X\<rparr>"
        by simp
      with True k(1) show ?thesis by (simp add: ls')
    next
      case False
      with same j show ?thesis by (simp add: ls')
    qed
  qed
  have dk: "distinct (map fst (relativePositions (ls ! k)))"
  proof -
    have "ls0 ! k \<in> set ls0" using k(1) len by simp
    with dst have "distinct (map fst (relativePositions (ls0 ! k)))" by blast
    with rel k(1) show ?thesis by simp
  qed
  have 2: "\<forall>j<length ls'. placed (ls' ! j) \<longrightarrow>
        (\<forall>e\<in>set (relativePositions (ls' ! j)). map_of ps' (fst e) = Some (shiftBy (finalX (ls' ! j)) (snd e)))"
  proof (intro allI impI ballI)
    fix j e assume "j < length ls'" and pl: "placed (ls' ! j)" and e: "e \<in> set (relativePositions (ls' ! j))"
    then have j: "j < length ls" by (simp add: ls')
    show "map_of ps' (fst e) = Some (shiftBy (finalX (ls' ! j)) (snd e))"
    proof (cases "j = k")
      case True
      then have lk: "ls' ! j = (ls ! k)\<lparr>placed := True, finalX := X\<rparr>" using k(1) by (simp add: ls')
      with e have "e \<in> set (relativePositions (ls ! k))" by simp
      from commitPositions_written[OF dk this, of X ps] show ?thesis
        by (simp add: ps' lk)
    next
      case False
      then have lj: "ls' ! j = ls ! j" by (simp add: ls')
      with pl e have plj: "placed (ls ! j)" and ej: "e \<in> set (relativePositions (ls ! j))" by simp_all
      from old j plj ej have o: "map_of ps (fst e) = Some (shiftBy (finalX (ls ! j)) (snd e))" by blast
      have "fst e \<in> keysOf (relativePositions (ls0 ! j))"
        using ej rel j by (auto simp: keysOf_def)
      moreover have "keysOf (relativePositions (ls0 ! j)) \<inter> keysOf (relativePositions (ls0 ! k)) = {}"
        using dis j k(1) len False by simp
      ultimately have "fst e \<notin> keysOf (relativePositions (ls ! k))"
        using rel k(1) by auto
      from commitPositions_other[OF this, of X ps] o show ?thesis
        by (simp add: ps' lj)
    qed
  qed
  from 1 2 show ?thesis by (simp add: writtenInv_def)
qed


lemma writtenInv_init:
  assumes "\<forall>l\<in>set ls0. \<not> placed l"
  shows "writtenInv ls0 ls0 []"
  using assms by (simp add: writtenInv_def)

lemma placeLoop_written:
  assumes unplaced: "\<forall>l\<in>set ls0. \<not> placed l"
    and dis: "\<forall>a<length ls0. \<forall>b<length ls0. a \<noteq> b \<longrightarrow>
                keysOf (relativePositions (ls0 ! a)) \<inter> keysOf (relativePositions (ls0 ! b)) = {}"
    and dst: "\<forall>l\<in>set ls0. distinct (map fst (relativePositions l))"
    and loop: "placeLoop 0 ls0 [] = Inr (c, ls, ps)"
  shows "writtenInv ls0 ls ps"
proof -
  have "schedInv ls0 c ls ps \<and> writtenInv ls0 ls ps"
  proof (rule placeLoop_invariant[where I = "\<lambda>c ls ps. schedInv ls0 c ls ps \<and> writtenInv ls0 ls ps", OF _ _ loop])
    show "schedInv ls0 0 ls0 [] \<and> writtenInv ls0 ls0 []"
      using schedInv_init[OF unplaced] writtenInv_init[OF unplaced] by simp
  next
    fix c ls ps ls' ps'
    assume i: "schedInv ls0 c ls ps \<and> writtenInv ls0 ls ps" and c: "c < 100"
      and step: "placeRound ls ps = Inr (ls', ps')"
    from i have s: "schedInv ls0 c ls ps" and w: "writtenInv ls0 ls ps" by simp_all
    show "schedInv ls0 (c + 1) ls' ps' \<and> writtenInv ls0 ls' ps'"
      using schedInv_step[OF s c step] writtenInv_step[OF s w dis dst step] by simp
  qed
  then show ?thesis by simp
qed

lemma initial_disjoint:
  assumes dis: "disjointTrees roots"
  shows "\<forall>a<length (map (\<lambda>nd. identifyAnchors pm (makeLayout nd)) roots).
         \<forall>b<length (map (\<lambda>nd. identifyAnchors pm (makeLayout nd)) roots). a \<noteq> b \<longrightarrow>
           keysOf (relativePositions (map (\<lambda>nd. identifyAnchors pm (makeLayout nd)) roots ! a)) \<inter>
           keysOf (relativePositions (map (\<lambda>nd. identifyAnchors pm (makeLayout nd)) roots ! b)) = {}"
proof (intro allI impI)
  fix a b
  assume a: "a < length (map (\<lambda>nd. identifyAnchors pm (makeLayout nd)) roots)"
    and b: "b < length (map (\<lambda>nd. identifyAnchors pm (makeLayout nd)) roots)" and ne: "a \<noteq> b"
  then have a': "a < length roots" and b': "b < length roots" by simp_all
  from disjointTrees_nth_neq[OF dis a' b' ne]
  show "keysOf (relativePositions (map (\<lambda>nd. identifyAnchors pm (makeLayout nd)) roots ! a)) \<inter>
        keysOf (relativePositions (map (\<lambda>nd. identifyAnchors pm (makeLayout nd)) roots ! b)) = {}"
    using a' b' by (simp add: initial_relpos)
qed

lemma run_written:
  assumes out: "calculateLayout D input = Inr out"
  shows "map rootNode (outLayouts out) = outRoots out"
    and "\<forall>l\<in>set (outLayouts out). relativePositions l = calcRelative (rootNode l) 0 0 [] \<and>
           (placed l \<longrightarrow> (\<forall>e\<in>set (relativePositions l).
              map_of (outPositions out) (fst e)
                = Some \<lparr>posX = finalX l + posX (snd e), posY = 100 + posY (snd e)\<rparr>))"
    and "\<forall>i. i \<in> keysOf (outPositions out) \<longrightarrow>
           (\<exists>l\<in>set (outLayouts out). placed l \<and> i \<in> keysOf (relativePositions l))"
proof -
  have "map rootNode (outLayouts out) = outRoots out \<and>
        (\<forall>l\<in>set (outLayouts out). relativePositions l = calcRelative (rootNode l) 0 0 [] \<and>
           (placed l \<longrightarrow> (\<forall>e\<in>set (relativePositions l).
              map_of (outPositions out) (fst e)
                = Some \<lparr>posX = finalX l + posX (snd e), posY = 100 + posY (snd e)\<rparr>))) \<and>
        (\<forall>i. i \<in> keysOf (outPositions out) \<longrightarrow>
           (\<exists>l\<in>set (outLayouts out). placed l \<and> i \<in> keysOf (relativePositions l)))"
  proof (cases "input = []")
    case True
    with out have "outLayouts out = []" "outRoots out = []" "outPositions out = []"
      by (auto simp: calculateLayout_def)
    then show ?thesis by (simp add: keysOf_Nil)
  next
    case False
    show ?thesis
    proof (rule run_facts[OF False, of D])
      fix out' :: layoutOutput
      let ?pm = "personMap (repairLinks input)"
      let ?init = "map (\<lambda>nd. identifyAnchors ?pm (makeLayout nd)) (outRoots out')"
      assume out': "calculateLayout D input = Inr out'"
        and inv: "schedInv ?init (outRounds out') (outLayouts out') (outPositions out')"
        and dis: "disjointTrees (outRoots out')"
      from out out' have eq: "out' = out" by simp
      from out' False obtain roots where
        loop: "placeLoop 0 (map (\<lambda>nd. identifyAnchors ?pm (makeLayout nd)) roots) []
           = Inr (outRounds out', outLayouts out', outPositions out')"
        and roots: "outRoots out' = roots"
        by (rule calculateLayout_InrD)
      have dst: "\<forall>l\<in>set ?init. distinct (map fst (relativePositions l))"
        using initial_distinct by auto
      have wr: "writtenInv ?init (outLayouts out') (outPositions out')"
        by (rule placeLoop_written[OF initial_unplaced initial_disjoint[OF dis] dst loop[folded roots]])
      let ?lays = "outLayouts out'"
      note i = inv[unfolded schedInv_def]
      have len: "length ?lays = length (outRoots out')"
        using i[THEN conjunct2, THEN conjunct1] by simp
      have rel: "\<forall>k<length ?lays. relativePositions (?lays ! k) = relativePositions (?init ! k)"
        by (rule i[THEN conjunct2, THEN conjunct2, THEN conjunct1])
      have keys: "keysOf (outPositions out') = (\<Union>k\<in>placedIdx ?lays. keysOf (relativePositions (?init ! k)))"
        by (rule i[THEN conjunct2, THEN conjunct2, THEN conjunct2, THEN conjunct2, THEN conjunct1])
      note w = wr[unfolded writtenInv_def]
      have same: "\<forall>k<length ?lays. ?lays ! k = (?init ! k)\<lparr>placed := placed (?lays ! k), finalX := finalX (?lays ! k)\<rparr>"
        by (rule w[THEN conjunct1])
      have written: "\<forall>k<length ?lays. placed (?lays ! k) \<longrightarrow>
          (\<forall>e\<in>set (relativePositions (?lays ! k)).
             map_of (outPositions out') (fst e) = Some (shiftBy (finalX (?lays ! k)) (snd e)))"
        by (rule w[THEN conjunct2])
      have node: "rootNode (?lays ! k) = outRoots out' ! k \<and>
                  relativePositions (?lays ! k) = calcRelative (rootNode (?lays ! k)) 0 0 []" if "k < length ?lays" for k
      proof -
        from same that have e: "?lays ! k = (?init ! k)\<lparr>placed := placed (?lays ! k), finalX := finalX (?lays ! k)\<rparr>"
          by simp
        have "rootNode (?lays ! k) = rootNode (?init ! k)" "relativePositions (?lays ! k) = relativePositions (?init ! k)"
          by (subst e, simp)+
        then show ?thesis using that len by (simp add: identifyAnchors_def makeLayout_def)
      qed
      have 1: "map rootNode ?lays = outRoots out'"
        by (rule nth_equalityI) (use len node in auto)
      have 2: "\<forall>l\<in>set ?lays. relativePositions l = calcRelative (rootNode l) 0 0 [] \<and>
           (placed l \<longrightarrow> (\<forall>e\<in>set (relativePositions l).
              map_of (outPositions out') (fst e)
                = Some \<lparr>posX = finalX l + posX (snd e), posY = 100 + posY (snd e)\<rparr>))"
      proof
        fix l assume "l \<in> set ?lays"
        then obtain k where k: "k < length ?lays" "?lays ! k = l" by (auto simp: in_set_conv_nth)
        from node[OF k(1)] written k show "relativePositions l = calcRelative (rootNode l) 0 0 [] \<and>
           (placed l \<longrightarrow> (\<forall>e\<in>set (relativePositions l).
              map_of (outPositions out') (fst e)
                = Some \<lparr>posX = finalX l + posX (snd e), posY = 100 + posY (snd e)\<rparr>))"
          by (auto simp: shiftBy_def)
      qed
      have 3: "\<forall>i. i \<in> keysOf (outPositions out') \<longrightarrow>
           (\<exists>l\<in>set ?lays. placed l \<and> i \<in> keysOf (relativePositions l))"
      proof (intro allI impI)
        fix i assume "i \<in> keysOf (outPositions out')"
        with keys obtain k where k: "k \<in> placedIdx ?lays" "i \<in> keysOf (relativePositions (?init ! k))" by auto
        then have k': "k < length ?lays" "placed (?lays ! k)" by (auto simp: placedIdx_def)
        with rel k(2) have "i \<in> keysOf (relativePositions (?lays ! k))" by simp
        with k' show "\<exists>l\<in>set ?lays. placed l \<and> i \<in> keysOf (relativePositions l)"
          using nth_mem[OF k'(1)] by blast
      qed
      from 1 2 3 show ?thesis unfolding eq by simp
    qed
  qed
  then show "map rootNode (outLayouts out) = outRoots out"
    and "\<forall>l\<in>set (outLayouts out). relativePositions l = calcRelative (rootNode l) 0 0 [] \<and>
           (placed l \<longrightarrow> (\<forall>e\<in>set (relativePositions l).
              map_of (outPositions out) (fst e)
                = Some \<lparr>posX = finalX l + posX (snd e), posY = 100 + posY (snd e)\<rparr>))"
    and "\<forall>i. i \<in> keysOf (outPositions out) \<longrightarrow>
           (\<exists>l\<in>set (outLayouts out). placed l \<and> i \<in> keysOf (relativePositions l))"
    by blast+
qed

lemma placeRound_one:
  assumes "\<exists>l\<in>set ls. \<not> placed l"
  shows "\<exists>k<length ls. \<not> placed (ls ! k) \<and>
           (\<exists>x. placeRound ls ps = Inr (ls[k := (ls ! k)\<lparr>placed := True, finalX := x\<rparr>],
                                      commitPositions x (relativePositions (ls ! k)) ps))"
proof -
  from assms have "list_ex (\<lambda>l. \<not> placed l) ls" by (simp add: list_ex_iff)
  from placeRound_no_error[OF this, of ps] obtain ls' ps' where r: "placeRound ls ps = Inr (ls', ps')"
    by auto
  from r obtain k dX where "k < length ls" "\<not> placed (ls ! k)"
    "ls' = ls[k := (ls ! k)\<lparr>placed := True, finalX := choosePlaceX ls ps (ls ! k) dX\<rparr>]"
    "ps' = commitPositions (choosePlaceX ls ps (ls ! k) dX) (relativePositions (ls ! k)) ps"
    by (rule placeRound_InrD)
  with r show ?thesis by blast
qed


section \<open>The round cap of the scheduler\<close>

lemma unplaced_has_no_position:
  assumes inv: "schedInv (map (\<lambda>nd. identifyAnchors pm (makeLayout nd)) roots) c ls ps"
    and dis: "disjointTrees roots"
    and l: "l \<in> set ls" "\<not> placed l" and i: "i \<in> keysOf (relativePositions l)"
  shows "map_of ps i = None"
proof (rule ccontr)
  assume "map_of ps i \<noteq> None"
  then have "i \<in> keysOf ps" by (simp add: keysOf_map_of)
  let ?ls0 = "map (\<lambda>nd. identifyAnchors pm (makeLayout nd)) roots"
  from inv have len: "length ls = length roots"
    and rel: "\<forall>k<length ls. relativePositions (ls ! k) = relativePositions (?ls0 ! k)"
    and keys: "keysOf ps = (\<Union>k\<in>placedIdx ls. keysOf (relativePositions (?ls0 ! k)))"
    by (auto simp: schedInv_def)
  from l(1) obtain a where a: "a < length ls" "ls ! a = l" by (auto simp: in_set_conv_nth)
  from \<open>i \<in> keysOf ps\<close> keys obtain b where b: "b \<in> placedIdx ls" "i \<in> keysOf (relativePositions (?ls0 ! b))"
    by auto
  then have b': "b < length roots" "placed (ls ! b)" using len by (auto simp: placedIdx_def)
  have "a \<noteq> b" using a(2) l(2) b'(2) by auto
  have "i \<in> nodeIds (roots ! b)" using b(2) b'(1) by (simp add: initial_relpos)
  moreover have "i \<in> nodeIds (roots ! a)"
  proof -
    have "relativePositions l = relativePositions (identifyAnchors pm (makeLayout (roots ! a)))"
      using a rel len by auto
    with i show ?thesis by (simp add: initial_relpos)
  qed
  ultimately show False
    using disjointTrees_nth_neq[OF dis _ b'(1) \<open>a \<noteq> b\<close>] a(1) len by auto
qed

text \<open>
  Claim C3. For every input \<open>calculateLayout\<close> returns a result (no exception, and the
  depth bound of the model is not reached); the placement loop has run at most 100
  rounds; the number of placed components equals the number of rounds, one per round;
  the loop stops with every component placed or after round 100; and no person of a
  component that is still unplaced has an entry in the position map. The layouts are
  the root components in order, each with the relative positions of its tree; every
  person of a placed component is in the position map at the relative position moved
  by the component's \<open>finalX\<close> and the base \<open>y\<close> of 100; and the map has no other key. A
  single round, from any state with an unplaced layout, raises nothing, marks exactly
  one unplaced layout as placed and writes the people of that layout.
\<close>

theorem placement_terminates_within_cap:
  "(\<exists>out. calculateLayout D input = Inr out \<and>
         outRounds out \<le> 100 \<and>
         length (filter placed (outLayouts out)) = outRounds out \<and>
         ((\<forall>l\<in>set (outLayouts out). placed l) \<or> outRounds out = 100) \<and>
         (\<forall>l\<in>set (outLayouts out). \<not> placed l \<longrightarrow>
            (\<forall>i\<in>keysOf (relativePositions l). map_of (outPositions out) i = None)) \<and>
         map rootNode (outLayouts out) = outRoots out \<and>
         (\<forall>l\<in>set (outLayouts out). relativePositions l = calcRelative (rootNode l) 0 0 [] \<and>
            (placed l \<longrightarrow> (\<forall>e\<in>set (relativePositions l).
               map_of (outPositions out) (fst e)
                 = Some \<lparr>posX = finalX l + posX (snd e), posY = 100 + posY (snd e)\<rparr>))) \<and>
         (\<forall>i. i \<in> keysOf (outPositions out) \<longrightarrow>
            (\<exists>l\<in>set (outLayouts out). placed l \<and> i \<in> keysOf (relativePositions l)))) \<and>
   (\<forall>ls ps. (\<exists>l\<in>set ls. \<not> placed l) \<longrightarrow>
      (\<exists>k<length ls. \<not> placed (ls ! k) \<and>
         (\<exists>x. placeRound ls ps = Inr (ls[k := (ls ! k)\<lparr>placed := True, finalX := x\<rparr>],
                                    commitPositions x (relativePositions (ls ! k)) ps))))"
proof (intro conjI allI impI)
  show "\<exists>out. calculateLayout D input = Inr out \<and>
         outRounds out \<le> 100 \<and>
         length (filter placed (outLayouts out)) = outRounds out \<and>
         ((\<forall>l\<in>set (outLayouts out). placed l) \<or> outRounds out = 100) \<and>
         (\<forall>l\<in>set (outLayouts out). \<not> placed l \<longrightarrow>
            (\<forall>i\<in>keysOf (relativePositions l). map_of (outPositions out) i = None)) \<and>
         map rootNode (outLayouts out) = outRoots out \<and>
         (\<forall>l\<in>set (outLayouts out). relativePositions l = calcRelative (rootNode l) 0 0 [] \<and>
            (placed l \<longrightarrow> (\<forall>e\<in>set (relativePositions l).
               map_of (outPositions out) (fst e)
                 = Some \<lparr>posX = finalX l + posX (snd e), posY = 100 + posY (snd e)\<rparr>))) \<and>
         (\<forall>i. i \<in> keysOf (outPositions out) \<longrightarrow>
            (\<exists>l\<in>set (outLayouts out). placed l \<and> i \<in> keysOf (relativePositions l)))"
  proof (cases "input = []")
    case True
    then show ?thesis by (simp add: calculateLayout_empty keysOf_Nil)
  next
    case False
    then obtain out where out: "calculateLayout D input = Inr out"
      and inv: "schedInv (map (\<lambda>nd. identifyAnchors (personMap (repairLinks input)) (makeLayout nd)) (outRoots out))
         (outRounds out) (outLayouts out) (outPositions out)"
      and ex: "(\<forall>l\<in>set (outLayouts out). placed l) \<or> 100 \<le> outRounds out"
      and dis: "disjointTrees (outRoots out)"
      by (rule run_facts)
    from inv have le: "outRounds out \<le> 100" and card: "card (placedIdx (outLayouts out)) = outRounds out"
      by (auto simp: schedInv_def)
    have cnt: "length (filter placed (outLayouts out)) = outRounds out"
      using card by (simp add: length_filter_conv_card placedIdx_def)
    have fin: "(\<forall>l\<in>set (outLayouts out). placed l) \<or> outRounds out = 100"
      using ex le by auto
    have om: "\<forall>l\<in>set (outLayouts out). \<not> placed l \<longrightarrow>
              (\<forall>i\<in>keysOf (relativePositions l). map_of (outPositions out) i = None)"
      using unplaced_has_no_position[OF inv dis] by blast
    note w = run_written[OF out]
    show ?thesis
      by (intro exI[of _ out] conjI out le cnt fin om w)
  qed
next
  fix ls :: "rootLayout list" and ps
  assume "\<exists>l\<in>set ls. \<not> placed l"
  then show "\<exists>k<length ls. \<not> placed (ls ! k) \<and>
         (\<exists>x. placeRound ls ps = Inr (ls[k := (ls ! k)\<lparr>placed := True, finalX := x\<rparr>],
                                    commitPositions x (relativePositions (ls ! k)) ps))"
    by (rule placeRound_one)
qed

theorem placement_terminates_within_cap_witness:
  "\<exists>out. calculateLayout noDates (crowd 101) = Inr out \<and>
         outRounds out = 100 \<and>
         length (filter placed (outLayouts out)) = 100 \<and>
         (\<exists>l\<in>set (outLayouts out). \<not> placed l \<and>
            (\<exists>i\<in>keysOf (relativePositions l). map_of (outPositions out) i = None)) \<and>
         (\<exists>l\<in>set (outLayouts out). placed l \<and>
            (\<exists>e\<in>set (relativePositions l).
               map_of (outPositions out) (fst e)
                 = Some \<lparr>posX = finalX l + posX (snd e), posY = 100 + posY (snd e)\<rparr>))"
proof -
  from placement_terminates_within_cap[of noDates "crowd 101", THEN conjunct1] obtain out where
    out: "calculateLayout noDates (crowd 101) = Inr out"
    and rest: "outRounds out \<le> 100 \<and>
         length (filter placed (outLayouts out)) = outRounds out \<and>
         ((\<forall>l\<in>set (outLayouts out). placed l) \<or> outRounds out = 100) \<and>
         (\<forall>l\<in>set (outLayouts out). \<not> placed l \<longrightarrow>
            (\<forall>i\<in>keysOf (relativePositions l). map_of (outPositions out) i = None)) \<and>
         map rootNode (outLayouts out) = outRoots out \<and>
         (\<forall>l\<in>set (outLayouts out). relativePositions l = calcRelative (rootNode l) 0 0 [] \<and>
            (placed l \<longrightarrow> (\<forall>e\<in>set (relativePositions l).
               map_of (outPositions out) (fst e)
                 = Some \<lparr>posX = finalX l + posX (snd e), posY = 100 + posY (snd e)\<rparr>))) \<and>
         (\<forall>i. i \<in> keysOf (outPositions out) \<longrightarrow>
            (\<exists>l\<in>set (outLayouts out). placed l \<and> i \<in> keysOf (relativePositions l)))"
    by (elim exE conjE) (rule that, assumption, intro conjI, assumption+)
  note cnt = rest[THEN conjunct2, THEN conjunct1]
  note fin = rest[THEN conjunct2, THEN conjunct2, THEN conjunct1]
  note om = rest[THEN conjunct2, THEN conjunct2, THEN conjunct2, THEN conjunct1]
  note wr = rest[THEN conjunct2, THEN conjunct2, THEN conjunct2, THEN conjunct2, THEN conjunct2, THEN conjunct1]
  have iso: "\<forall>p\<in>set (crowd 101). isolated p" using crowd_isolated by blast
  have many: "100 < length (crowd 101)" by (simp add: crowd_length)
  from isolated_overflow(1)[OF iso crowd_distinct many out]
  obtain l where l: "l \<in> set (outLayouts out)" "\<not> placed l" "keysOf (relativePositions l) \<noteq> {}"
    by blast
  then obtain i where i: "i \<in> keysOf (relativePositions l)" by blast
  with om l have none: "map_of (outPositions out) i = None" by blast
  from fin l have r: "outRounds out = 100" by blast
  from cnt r have "filter placed (outLayouts out) \<noteq> []" by auto
  then obtain l' where l': "l' \<in> set (outLayouts out)" "placed l'"
    by (auto simp: filter_empty_conv)
  from wr l' have rel': "relativePositions l' = calcRelative (rootNode l') 0 0 []"
    and wr': "\<forall>e\<in>set (relativePositions l').
               map_of (outPositions out) (fst e)
                 = Some \<lparr>posX = finalX l' + posX (snd e), posY = 100 + posY (snd e)\<rparr>"
    by blast+
  have "keysOf (relativePositions l') = nodeIds (rootNode l')"
    unfolding rel' calcRelative_keys keysOf_Nil by simp
  moreover have "nodeIds (rootNode l') \<noteq> {}" by (cases "rootNode l'") simp
  ultimately have "keysOf (relativePositions l') \<noteq> {}" by simp
  then have "relativePositions l' \<noteq> []" by (auto simp: keysOf_def)
  then obtain e where e: "e \<in> set (relativePositions l')"
    by (cases "relativePositions l'") auto
  with wr' have w: "map_of (outPositions out) (fst e)
                 = Some \<lparr>posX = finalX l' + posX (snd e), posY = 100 + posY (snd e)\<rparr>" by blast
  have A: "\<exists>l\<in>set (outLayouts out). \<not> placed l \<and>
            (\<exists>i\<in>keysOf (relativePositions l). map_of (outPositions out) i = None)"
    using l(1,2) i none by blast
  have B: "\<exists>l\<in>set (outLayouts out). placed l \<and>
            (\<exists>e\<in>set (relativePositions l).
               map_of (outPositions out) (fst e)
                 = Some \<lparr>posX = finalX l + posX (snd e), posY = 100 + posY (snd e)\<rparr>)"
    using l' e w by blast
  have cnt': "length (filter placed (outLayouts out)) = 100" using cnt r by simp
  show ?thesis
    by (intro exI[of _ out] conjI out r cnt' A B)
qed

section \<open>Sign of the coordinates\<close>

text \<open>
  Claim C10 as stated fails: a component with a placed anchor is centred on the anchor
  and, on a collision, moved left in steps of 50, with no lower bound. In the blended
  family the parent \<open>g\<close> is placed at \<open>x = -80\<close>.
\<close>

theorem negative_x_counterexample:
  "positionOf noDates blended ''g'' = Some \<lparr>posX = - 80, posY = 100\<rparr> \<and>
   \<not> 0 \<le> posX \<lparr>posX = - 80, posY = 100\<rparr>"
proof -
  have "positionOf noDates blended ''g'' = Some \<lparr>posX = - 80, posY = 100\<rparr>"
    by code_simp
  then show ?thesis by simp
qed

text \<open>
  Claim C10, amended to the vertical coordinate. For every input, every entry of the
  position map has a non-negative \<open>y\<close>, and indeed \<open>y \<ge> 100\<close>. Nothing is said about \<open>x\<close>.
\<close>

theorem positions_y_nonneg:
  "\<exists>out. calculateLayout D input = Inr out \<and>
         (\<forall>e\<in>set (outPositions out). 0 \<le> posY (snd e) \<and> 100 \<le> posY (snd e))"
proof (cases "input = []")
  case True
  then show ?thesis by (simp add: calculateLayout_empty)
next
  case False
  then obtain out where out: "calculateLayout D input = Inr out"
    and y: "yInvariant (outLayouts out) (outPositions out)"
    by (rule run_facts)
  from y have "\<forall>e\<in>set (outPositions out). 0 \<le> posY (snd e) \<and> 100 \<le> posY (snd e)"
    by (fastforce simp: yInvariant_def)
  with out show ?thesis by blast
qed

theorem positions_y_nonneg_witness:
  "\<exists>out. calculateLayout noDates blended = Inr out \<and>
         (''g'', \<lparr>posX = - 80, posY = 100\<rparr>) \<in> set (outPositions out) \<and>
         0 \<le> posY (snd (''g'', \<lparr>posX = - 80, posY = 100\<rparr>)) \<and>
         100 \<le> posY (snd (''g'', \<lparr>posX = - 80, posY = 100\<rparr>))"
proof -
  from positions_y_nonneg[of noDates blended] obtain out where
    out: "calculateLayout noDates blended = Inr out"
    and y: "\<forall>e\<in>set (outPositions out). 0 \<le> posY (snd e) \<and> 100 \<le> posY (snd e)"
    by blast
  have "positionOf noDates blended ''g'' = Some \<lparr>posX = - 80, posY = 100\<rparr>"
    by code_simp
  with out have "map_of (outPositions out) ''g'' = Some \<lparr>posX = - 80, posY = 100\<rparr>"
    by (simp add: positionOf_def)
  then have mem: "(''g'', \<lparr>posX = - 80, posY = 100\<rparr>) \<in> set (outPositions out)"
    by (rule map_of_SomeD)
  with y have "0 \<le> posY (snd (''g'', \<lparr>posX = - 80, posY = 100\<rparr>)) \<and>
               100 \<le> posY (snd (''g'', \<lparr>posX = - 80, posY = 100\<rparr>))"
    by blast
  with out mem show ?thesis by blast
qed

section \<open>Coverage of the people\<close>

lemma one_entry:
  "distinct (map fst ps) \<Longrightarrow> k \<in> keysOf ps \<Longrightarrow> length (filter (\<lambda>e. fst e = k) ps) = 1"
proof (induction ps)
  case Nil
  then show ?case by (simp add: keysOf_def)
next
  case (Cons e ps)
  show ?case
  proof (cases "fst e = k")
    case True
    have "k \<notin> fst ` set ps" using Cons.prems(1) True by auto
    then have "filter (\<lambda>e. fst e = k) ps = []"
      by (auto simp: filter_empty_conv)
    with True show ?thesis by simp
  next
    case False
    with Cons show ?thesis by (auto simp: keysOf_def)
  qed
qed

lemma all_placed_when_few:
  assumes inv: "schedInv ls0 c ls ps" and ex: "(\<forall>l\<in>set ls. placed l) \<or> 100 \<le> c"
    and few: "length ls0 \<le> 100"
  shows "placedIdx ls = {..<length ls0}"
proof -
  from inv have len: "length ls = length ls0" and card: "card (placedIdx ls) = c"
    by (auto simp: schedInv_def)
  from ex show ?thesis
  proof
    assume "\<forall>l\<in>set ls. placed l"
    then show ?thesis using len by (auto simp: placedIdx_def)
  next
    assume "100 \<le> c"
    then have "length ls \<le> card (placedIdx ls)" using few len card by simp
    then have "card (placedIdx ls) = length ls" using placedIdx_le[of ls] by simp
    from placedIdx_all[OF this] len show ?thesis by simp
  qed
qed

text \<open>
  Claim C2 as stated fails when there are more than 100 root components: the loop stops
  after 100 rounds and the people of the remaining components have no entry. Among 101
  people without relationships one has no position.
\<close>

theorem coverage_counterexample:
  "\<not> (\<forall>p\<in>set (crowd 101). \<exists>pos. positionOf noDates (crowd 101) (pid p) = Some pos)"
proof -
  obtain out where out: "calculateLayout noDates (crowd 101) = Inr out"
    using calculateLayout_returns by blast
  have iso: "\<forall>p\<in>set (crowd 101). isolated p" using crowd_isolated by blast
  have many: "100 < length (crowd 101)" by (simp add: crowd_length)
  from isolated_overflow(2)[OF iso crowd_distinct many out]
  obtain p where "p \<in> set (crowd 101)" "map_of (outPositions out) (pid p) = None" by blast
  then have "p \<in> set (crowd 101)" "positionOf noDates (crowd 101) (pid p) = None"
    using out by (simp_all add: positionOf_def)
  then show ?thesis by force
qed

text \<open>
  Claim C2, amended with the proviso of the cap. For every input, if there are at most
  100 root components, every person of the input list has an entry in the position map
  and exactly one; the ghost records are a list of their own, and rendering them leaves
  the entry as it is.
\<close>

theorem coverage_under_cap:
  "\<exists>out. calculateLayout D input = Inr out \<and>
         (length (outRoots out) \<le> 100 \<longrightarrow>
            (\<forall>p\<in>set input. \<exists>pos. map_of (outPositions out) (pid p) = Some pos \<and>
                length (filter (\<lambda>e. fst e = pid p) (outPositions out)) = 1 \<and>
                map_of (snd (renderGhostNodes (repairLinks input) (outPositions out))) (pid p) = Some pos))"
proof (cases "input = []")
  case True
  then show ?thesis by (simp add: calculateLayout_empty)
next
  case False
  then obtain out where out: "calculateLayout D input = Inr out"
    and inv: "schedInv (map (\<lambda>nd. identifyAnchors (personMap (repairLinks input)) (makeLayout nd)) (outRoots out))
       (outRounds out) (outLayouts out) (outPositions out)"
    and ex: "(\<forall>l\<in>set (outLayouts out). placed l) \<or> 100 \<le> outRounds out"
    and cov: "pid ` set input \<subseteq> (\<Union>k\<in>set (outRoots out). nodeIds k)"
    by (rule run_facts)
  let ?ls0 = "map (\<lambda>nd. identifyAnchors (personMap (repairLinks input)) (makeLayout nd)) (outRoots out)"
  have "length (outRoots out) \<le> 100 \<longrightarrow>
            (\<forall>p\<in>set input. \<exists>pos. map_of (outPositions out) (pid p) = Some pos \<and>
                length (filter (\<lambda>e. fst e = pid p) (outPositions out)) = 1 \<and>
                map_of (snd (renderGhostNodes (repairLinks input) (outPositions out))) (pid p) = Some pos)"
  proof (intro impI ballI)
    fix p assume few: "length (outRoots out) \<le> 100" and p: "p \<in> set input"
    have idx: "placedIdx (outLayouts out) = {..<length (outRoots out)}"
      using all_placed_when_few[OF inv ex] few by simp
    from inv have keys: "keysOf (outPositions out)
        = (\<Union>k\<in>placedIdx (outLayouts out). keysOf (relativePositions (?ls0 ! k)))"
      and dist: "distinct (map fst (outPositions out))"
      by (auto simp: schedInv_def)
    from cov p obtain t where t: "t \<in> set (outRoots out)" "pid p \<in> nodeIds t" by auto
    then obtain k where k: "k < length (outRoots out)" "outRoots out ! k = t"
      by (auto simp: in_set_conv_nth)
    have "pid p \<in> keysOf (relativePositions (?ls0 ! k))"
      using t(2) k by (simp add: initial_relpos)
    then have in_keys: "pid p \<in> keysOf (outPositions out)"
      unfolding keys idx using k(1) by blast
    then obtain pos where pos: "map_of (outPositions out) (pid p) = Some pos"
      using keysOf_map_of[of "outPositions out" "pid p"] by auto
    show "\<exists>pos. map_of (outPositions out) (pid p) = Some pos \<and>
                length (filter (\<lambda>e. fst e = pid p) (outPositions out)) = 1 \<and>
                map_of (snd (renderGhostNodes (repairLinks input) (outPositions out))) (pid p) = Some pos"
      using pos one_entry[OF dist in_keys] by (simp add: renderGhostNodes_def)
  qed
  with out show ?thesis by blast
qed

theorem coverage_under_cap_witness:
  "\<exists>out. calculateLayout noDates coupleFamily = Inr out \<and>
         length (outRoots out) \<le> 100 \<and>
         (\<exists>pos. map_of (outPositions out) ''c'' = Some pos \<and>
            length (filter (\<lambda>e. fst e = ''c'') (outPositions out)) = 1 \<and>
            map_of (snd (renderGhostNodes (repairLinks coupleFamily) (outPositions out))) ''c'' = Some pos)"
proof -
  from coverage_under_cap[of noDates coupleFamily] obtain out where
    out: "calculateLayout noDates coupleFamily = Inr out"
    and cov: "length (outRoots out) \<le> 100 \<longrightarrow>
            (\<forall>p\<in>set coupleFamily. \<exists>pos. map_of (outPositions out) (pid p) = Some pos \<and>
                length (filter (\<lambda>e. fst e = pid p) (outPositions out)) = 1 \<and>
                map_of (snd (renderGhostNodes (repairLinks coupleFamily) (outPositions out))) (pid p) = Some pos)"
    by blast
  have "case calculateLayout noDates coupleFamily of Inl e \<Rightarrow> False | Inr r \<Rightarrow> length (outRoots r) \<le> 100"
    by code_simp
  with out have few: "length (outRoots out) \<le> 100" by simp
  have c: "mkPerson ''c'' [''a'', ''b''] [] [] \<in> set coupleFamily" by (simp add: coupleFamily_def)
  have "pid (mkPerson ''c'' [''a'', ''b''] [] []) = ''c''" by (simp add: mkPerson_def)
  with cov few c have "\<exists>pos. map_of (outPositions out) ''c'' = Some pos \<and>
            length (filter (\<lambda>e. fst e = ''c'') (outPositions out)) = 1 \<and>
            map_of (snd (renderGhostNodes (repairLinks coupleFamily) (outPositions out))) ''c'' = Some pos"
    by force
  with out few show ?thesis by blast
qed

section \<open>Generations\<close>

lemma wave_keys_mono: "fst ` set gens \<subseteq> fst ` set (wave people queue gens)"
proof (induction people queue gens rule: wave.induct)
  case (1 people gens)
  show ?case by (simp add: wave.simps)
next
  case (2 people i g queue gens)
  obtain queue' gens' where st: "waveStep people i g (queue, gens) = (queue', gens')"
    by (cases "waveStep people i g (queue, gens)")
  from waveStep_keys[of people i g "(queue, gens)"] obtain N where
    "fst ` set (snd (waveStep people i g (queue, gens))) = fst ` set (snd (queue, gens)) \<union> N"
    by blast
  then have "fst ` set gens \<subseteq> fst ` set gens'" by (simp add: st)
  moreover have "fst ` set gens' \<subseteq> fst ` set (wave people queue' gens')"
    using "2.IH"[OF st[symmetric]] .
  moreover have "wave people ((i, g) # queue) gens = wave people queue' gens'"
    by (simp add: wave.simps st)
  ultimately show ?case by simp
qed

lemma seedGeneration_keys:
  "insert (pid seed) (fst ` set gens) \<subseteq> fst ` set (seedGeneration people gens seed)"
proof (cases "map_of gens (pid seed) = None")
  case True
  have "fst ` set (AList.update (pid seed) 0 gens) \<subseteq> fst ` set (wave people [(pid seed, 0)] (AList.update (pid seed) 0 gens))"
    by (rule wave_keys_mono)
  then show ?thesis using True by (simp add: seedGeneration_def keys_update)
next
  case False
  then have "pid seed \<in> fst ` set gens" by (simp add: map_of_None_keys)
  with False show ?thesis by (auto simp: seedGeneration_def)
qed

lemma rawGenerations_fold_keys:
  "fst ` set gens \<union> pid ` set seeds \<subseteq> fst ` set (foldl (seedGeneration people) gens seeds)"
proof (induction seeds arbitrary: gens)
  case Nil
  show ?case by simp
next
  case (Cons s seeds)
  define G0 where "G0 = fst ` set gens"
  define G1 where "G1 = fst ` set (seedGeneration people gens s)"
  define F where "F = fst ` set (foldl (seedGeneration people) (seedGeneration people gens s) seeds)"
  define P where "P = pid ` set seeds"
  have 1: "insert (pid s) G0 \<subseteq> G1"
    unfolding G0_def G1_def by (rule seedGeneration_keys)
  have 2: "G1 \<union> P \<subseteq> F"
    unfolding G1_def P_def F_def by (rule Cons.IH)
  have "G0 \<union> insert (pid s) P \<subseteq> F" using 1 2 by blast
  then show ?case
    unfolding G0_def P_def F_def by simp
qed

lemma rawGenerations_keys: "pid ` set people \<subseteq> fst ` set (rawGenerations people)"
  using rawGenerations_fold_keys[of "[]" people people] by (simp add: rawGenerations_def)

lemma minGen_fold:
  "foldl (\<lambda>m (i, g). case m of None \<Rightarrow> Some g | Some m' \<Rightarrow> Some (min m' g)) (Some a) gens
     = Some (Min (insert a (snd ` set gens)))"
proof (induction gens arbitrary: a)
  case Nil
  show ?case by simp
next
  case (Cons e gens)
  obtain i g where e: "e = (i, g)" by (cases e)
  have "Min (insert (min a g) (snd ` set gens)) = Min (insert a (insert g (snd ` set gens)))"
    by (cases "snd ` set gens = {}") (simp_all add: min.assoc)
  then show ?case by (simp add: e Cons.IH)
qed

lemma minGen_Min: "gens \<noteq> [] \<Longrightarrow> minGen gens = Some (Min (snd ` set gens))"
proof (cases gens)
  case Nil
  then show "gens \<noteq> [] \<Longrightarrow> ?thesis" by simp
next
  case (Cons e rest)
  obtain i g where e: "e = (i, g)" by (cases e)
  show ?thesis by (simp add: minGen_def Cons e minGen_fold)
qed

lemma normalize_keys: "map fst (normalizeGenerations gens) = map fst gens"
  by (auto simp: normalizeGenerations_def split: option.splits)

lemma normalize_values:
  assumes "gens \<noteq> []"
  shows "snd ` set (normalizeGenerations gens) = (\<lambda>g. g - Min (snd ` set gens)) ` snd ` set gens"
proof (cases "Min (snd ` set gens) = 0")
  case True
  then show ?thesis using assms by (simp add: normalizeGenerations_def minGen_Min)
next
  case False
  then have "normalizeGenerations gens = map (\<lambda>(i, g). (i, g - Min (snd ` set gens))) gens"
    using assms by (simp add: normalizeGenerations_def minGen_Min)
  then show ?thesis by (force simp: image_iff)
qed

lemma generations_total_aux:
  assumes "people \<noteq> []"
  shows "pid ` set people \<subseteq> fst ` set (generations people)"
    and "\<forall>e\<in>set (generations people). 0 \<le> snd e"
    and "Min (snd ` set (generations people)) = 0"
proof -
  let ?raw = "rawGenerations people"
  have keys: "pid ` set people \<subseteq> fst ` set ?raw" by (rule rawGenerations_keys)
  with assms have ne: "?raw \<noteq> []" by (cases people) auto
  have "fst ` set (generations people) = fst ` set ?raw"
    using normalize_keys[of ?raw] unfolding generations_def by (metis set_map)
  with keys show "pid ` set people \<subseteq> fst ` set (generations people)" by simp
  let ?V = "snd ` set ?raw"
  have fin: "finite ?V" "?V \<noteq> {}" using ne by auto
  have vals: "snd ` set (generations people) = (\<lambda>g. g - Min ?V) ` ?V"
    unfolding generations_def by (rule normalize_values[OF ne])
  show "\<forall>e\<in>set (generations people). 0 \<le> snd e"
  proof
    fix e assume "e \<in> set (generations people)"
    then have "snd e \<in> (\<lambda>g. g - Min ?V) ` ?V" using vals by blast
    then obtain g where "g \<in> ?V" "snd e = g - Min ?V" by blast
    then show "0 \<le> snd e" using Min_le[OF fin(1), of g] by simp
  qed
  have "Min ((\<lambda>g. g - Min ?V) ` ?V) = Min ?V - Min ?V"
    by (rule mono_Min_commute[symmetric, OF _ fin]) (simp add: mono_def)
  then show "Min (snd ` set (generations people)) = 0" by (simp add: vals)
qed

text \<open>
  Claim C6. For every non-empty person list, \<open>calculateLayout\<close> computes a generation
  map (the generations of the list after the repair pass, which keeps the ids) in which
  every person of the list has an integer generation, every generation is non-negative,
  and the minimum over the map is 0.
\<close>

theorem generation_map_total_normalized:
  assumes "input \<noteq> []"
  shows "\<exists>out. calculateLayout D input = Inr out \<and>
               outGenerations out = generations (repairLinks input) \<and>
               (\<forall>p\<in>set input. \<exists>g. map_of (outGenerations out) (pid p) = Some g) \<and>
               (\<forall>e\<in>set (outGenerations out). 0 \<le> snd e) \<and>
               Min (snd ` set (outGenerations out)) = 0"
proof -
  from assms obtain out clusters V where
    out: "calculateLayout D input = Inr out"
    and gens: "outGenerations out = generations (repairLinks input)"
    by (rule calculateLayout_run)
  have "length (repairLinks input) = length input"
    using repairLinks_ids[of input] by (metis length_map)
  with assms have ne: "repairLinks input \<noteq> []" by auto
  note g = generations_total_aux[OF ne]
  have "\<forall>p\<in>set input. \<exists>g. map_of (outGenerations out) (pid p) = Some g"
  proof
    fix p assume "p \<in> set input"
    then have "pid p \<in> pid ` set (repairLinks input)" by (simp add: repairLinks_pid_set)
    with g(1) have "pid p \<in> fst ` set (generations (repairLinks input))" by blast
    then have "map_of (generations (repairLinks input)) (pid p) \<noteq> None"
      by (simp add: map_of_None_keys)
    then show "\<exists>g. map_of (outGenerations out) (pid p) = Some g" by (simp add: gens)
  qed
  with out gens g(2,3) show ?thesis by simp
qed

theorem generation_map_total_normalized_witness:
  "coupleFamily \<noteq> [] \<and>
   (\<exists>out. calculateLayout noDates coupleFamily = Inr out \<and>
          outGenerations out = [(''a'', 0), (''b'', 0), (''c'', 1), (''d'', 1)] \<and>
          Min (snd ` set (outGenerations out)) = 0)"
proof -
  have ne: "coupleFamily \<noteq> []" by (simp add: coupleFamily_def)
  from generation_map_total_normalized[OF ne, of noDates] obtain out where
    out: "calculateLayout noDates coupleFamily = Inr out"
    and m: "Min (snd ` set (outGenerations out)) = 0"
    by blast
  have "case calculateLayout noDates coupleFamily of Inl e \<Rightarrow> False
        | Inr r \<Rightarrow> outGenerations r = [(''a'', 0), (''b'', 0), (''c'', 1), (''d'', 1)]"
    by code_simp
  with out have "outGenerations out = [(''a'', 0), (''b'', 0), (''c'', 1), (''d'', 1)]" by simp
  with ne out m show ?thesis by blast
qed

section \<open>The store repair, step by step\<close>

lemma setAdd_distinct: "distinct s \<Longrightarrow> distinct (setAdd s a)"
  by (simp add: setAdd_def)

lemma foldl_setAdd_distinct: "distinct s \<Longrightarrow> distinct (foldl setAdd s xs)"
  by (induction xs arbitrary: s) (simp_all add: setAdd_distinct)

lemma newSet_distinct: "distinct (newSet xs)"
  by (simp add: newSet_def foldl_setAdd_distinct)

lemma foldl_setAdd_id: "distinct (s @ xs) \<Longrightarrow> foldl setAdd s xs = s @ xs"
  by (induction xs arbitrary: s) (simp_all add: setAdd_def)

lemma newSet_id: "distinct xs \<Longrightarrow> newSet xs = xs"
  using foldl_setAdd_id[of "[]" xs] by (simp add: newSet_def)

text \<open>What each step does to the three fields of every entry.\<close>

lemma fieldOf_update:
  "fieldOf f (AList.update k v m) a = (if a = k then f v else fieldOf f m a)"
  by (simp add: fieldOf_def update_conv')

lemma dom_update_present: "map_of m k = Some p \<Longrightarrow> dom (map_of (AList.update k v m)) = dom (map_of m)"
  by (auto simp: update_conv')

lemma dedupParents_fields:
  "fieldOf parents (dedupParents i m) a = (if a = i then newSet (fieldOf parents m i) else fieldOf parents m a)"
  "fieldOf children (dedupParents i m) a = fieldOf children m a"
  "fieldOf partners (dedupParents i m) a = fieldOf partners m a"
  "dom (map_of (dedupParents i m)) = dom (map_of m)"
  by (auto simp: dedupParents_def fieldOf_def update_conv' newSet_def split: option.splits)

lemma dedupChildren_fields:
  "fieldOf children (dedupChildren i m) a = (if a = i then newSet (fieldOf children m i) else fieldOf children m a)"
  "fieldOf parents (dedupChildren i m) a = fieldOf parents m a"
  "fieldOf partners (dedupChildren i m) a = fieldOf partners m a"
  "dom (map_of (dedupChildren i m)) = dom (map_of m)"
  by (auto simp: dedupChildren_def fieldOf_def update_conv' newSet_def split: option.splits)

lemma dedupPartners_fields:
  "fieldOf partners (dedupPartners i m) a = (if a = i then newSet (fieldOf partners m i) else fieldOf partners m a)"
  "fieldOf parents (dedupPartners i m) a = fieldOf parents m a"
  "fieldOf children (dedupPartners i m) a = fieldOf children m a"
  "dom (map_of (dedupPartners i m)) = dom (map_of m)"
  by (auto simp: dedupPartners_def fieldOf_def update_conv' newSet_def split: option.splits)

lemma mirrorParent_fields:
  "fieldOf children (fst (mirrorParent i s q)) a =
     (if a = q \<and> q \<in> dom (map_of (fst s)) \<and> i \<notin> set (fieldOf children (fst s) q)
      then fieldOf children (fst s) q @ [i] else fieldOf children (fst s) a)"
  "fieldOf parents (fst (mirrorParent i s q)) a = fieldOf parents (fst s) a"
  "fieldOf partners (fst (mirrorParent i s q)) a = fieldOf partners (fst s) a"
  "dom (map_of (fst (mirrorParent i s q))) = dom (map_of (fst s))"
  by (auto simp: mirrorParent_def fieldOf_def update_conv' split: option.splits)

lemma mirrorChild_fields:
  "fieldOf parents (fst (mirrorChild i s c)) a =
     (if a = c \<and> c \<in> dom (map_of (fst s)) \<and> i \<notin> set (fieldOf parents (fst s) c)
      then fieldOf parents (fst s) c @ [i] else fieldOf parents (fst s) a)"
  "fieldOf children (fst (mirrorChild i s c)) a = fieldOf children (fst s) a"
  "fieldOf partners (fst (mirrorChild i s c)) a = fieldOf partners (fst s) a"
  "dom (map_of (fst (mirrorChild i s c))) = dom (map_of (fst s))"
  by (auto simp: mirrorChild_def fieldOf_def update_conv' split: option.splits)

lemma mirrorPartner_fields:
  "fieldOf partners (fst (mirrorPartner i s r)) a =
     (if a = r \<and> r \<in> dom (map_of (fst s)) \<and> i \<notin> set (fieldOf partners (fst s) r)
      then fieldOf partners (fst s) r @ [i] else fieldOf partners (fst s) a)"
  "fieldOf parents (fst (mirrorPartner i s r)) a = fieldOf parents (fst s) a"
  "fieldOf children (fst (mirrorPartner i s r)) a = fieldOf children (fst s) a"
  "dom (map_of (fst (mirrorPartner i s r))) = dom (map_of (fst s))"
  by (auto simp: mirrorPartner_def fieldOf_def update_conv' split: option.splits)

lemmas mir_defs = mirPar_def mirChi_def mirPrt_def

lemma dedupParents_pres:
  "mirPar m a \<Longrightarrow> mirPar (dedupParents i m) a"
  "mirChi m a \<Longrightarrow> mirChi (dedupParents i m) a"
  "mirPrt m a \<Longrightarrow> mirPrt (dedupParents i m) a"
  "distinct (fieldOf parents m a) \<Longrightarrow> distinct (fieldOf parents (dedupParents i m) a)"
  "distinct (fieldOf children m a) \<Longrightarrow> distinct (fieldOf children (dedupParents i m) a)"
  "distinct (fieldOf partners m a) \<Longrightarrow> distinct (fieldOf partners (dedupParents i m) a)"
  by (auto simp: mir_defs dedupParents_fields newSet_set newSet_distinct)

lemma dedupChildren_pres:
  "mirPar m a \<Longrightarrow> mirPar (dedupChildren i m) a"
  "mirChi m a \<Longrightarrow> mirChi (dedupChildren i m) a"
  "mirPrt m a \<Longrightarrow> mirPrt (dedupChildren i m) a"
  "distinct (fieldOf parents m a) \<Longrightarrow> distinct (fieldOf parents (dedupChildren i m) a)"
  "distinct (fieldOf children m a) \<Longrightarrow> distinct (fieldOf children (dedupChildren i m) a)"
  "distinct (fieldOf partners m a) \<Longrightarrow> distinct (fieldOf partners (dedupChildren i m) a)"
  by (auto simp: mir_defs dedupChildren_fields newSet_set newSet_distinct)

lemma dedupPartners_pres:
  "mirPar m a \<Longrightarrow> mirPar (dedupPartners i m) a"
  "mirChi m a \<Longrightarrow> mirChi (dedupPartners i m) a"
  "mirPrt m a \<Longrightarrow> mirPrt (dedupPartners i m) a"
  "distinct (fieldOf parents m a) \<Longrightarrow> distinct (fieldOf parents (dedupPartners i m) a)"
  "distinct (fieldOf children m a) \<Longrightarrow> distinct (fieldOf children (dedupPartners i m) a)"
  "distinct (fieldOf partners m a) \<Longrightarrow> distinct (fieldOf partners (dedupPartners i m) a)"
  by (auto simp: mir_defs dedupPartners_fields newSet_set newSet_distinct)

lemma mirrorParent_pres:
  assumes "q \<in> set (fieldOf parents (fst s) i)"
  shows "mirPar (fst s) a \<Longrightarrow> mirPar (fst (mirrorParent i s q)) a"
    "mirChi (fst s) a \<Longrightarrow> mirChi (fst (mirrorParent i s q)) a"
    "mirPrt (fst s) a \<Longrightarrow> mirPrt (fst (mirrorParent i s q)) a"
    "distinct (fieldOf parents (fst s) a) \<Longrightarrow> distinct (fieldOf parents (fst (mirrorParent i s q)) a)"
    "distinct (fieldOf children (fst s) a) \<Longrightarrow> distinct (fieldOf children (fst (mirrorParent i s q)) a)"
    "distinct (fieldOf partners (fst s) a) \<Longrightarrow> distinct (fieldOf partners (fst (mirrorParent i s q)) a)"
  using assms by (auto simp: mir_defs mirrorParent_fields)

lemma mirrorChild_pres:
  assumes "c \<in> set (fieldOf children (fst s) i)"
  shows "mirPar (fst s) a \<Longrightarrow> mirPar (fst (mirrorChild i s c)) a"
    "mirChi (fst s) a \<Longrightarrow> mirChi (fst (mirrorChild i s c)) a"
    "mirPrt (fst s) a \<Longrightarrow> mirPrt (fst (mirrorChild i s c)) a"
    "distinct (fieldOf parents (fst s) a) \<Longrightarrow> distinct (fieldOf parents (fst (mirrorChild i s c)) a)"
    "distinct (fieldOf children (fst s) a) \<Longrightarrow> distinct (fieldOf children (fst (mirrorChild i s c)) a)"
    "distinct (fieldOf partners (fst s) a) \<Longrightarrow> distinct (fieldOf partners (fst (mirrorChild i s c)) a)"
  using assms by (auto simp: mir_defs mirrorChild_fields)

lemma mirrorPartner_pres:
  assumes "r \<in> set (fieldOf partners (fst s) i)"
  shows "mirPar (fst s) a \<Longrightarrow> mirPar (fst (mirrorPartner i s r)) a"
    "mirChi (fst s) a \<Longrightarrow> mirChi (fst (mirrorPartner i s r)) a"
    "mirPrt (fst s) a \<Longrightarrow> mirPrt (fst (mirrorPartner i s r)) a"
    "distinct (fieldOf parents (fst s) a) \<Longrightarrow> distinct (fieldOf parents (fst (mirrorPartner i s r)) a)"
    "distinct (fieldOf children (fst s) a) \<Longrightarrow> distinct (fieldOf children (fst (mirrorPartner i s r)) a)"
    "distinct (fieldOf partners (fst s) a) \<Longrightarrow> distinct (fieldOf partners (fst (mirrorPartner i s r)) a)"
  using assms by (auto simp: mir_defs mirrorPartner_fields)

lemma repairEntry_stages: "repairEntry s i = stagePartners i (stageChildren i (stageParents i s))"
  by (simp add: repairEntry_def stageParents_def stageChildren_def stagePartners_def Let_def)

lemmas store_pres = dedupParents_pres dedupChildren_pres dedupPartners_pres
  mirrorParent_pres mirrorChild_pres mirrorPartner_pres

lemma stable_mirPar: "stable (\<lambda>m. mirPar m a)"
  by (simp add: stable_def store_pres)

lemma stable_mirChi: "stable (\<lambda>m. mirChi m a)"
  by (simp add: stable_def store_pres)

lemma stable_mirPrt: "stable (\<lambda>m. mirPrt m a)"
  by (simp add: stable_def store_pres)

lemma stable_distinct_parents: "stable (\<lambda>m. distinct (fieldOf parents m a))"
  by (simp add: stable_def store_pres)

lemma stable_distinct_children: "stable (\<lambda>m. distinct (fieldOf children m a))"
  by (simp add: stable_def store_pres)

lemma stable_distinct_partners: "stable (\<lambda>m. distinct (fieldOf partners m a))"
  by (simp add: stable_def store_pres)

lemma foldl_store_pres:
  assumes step: "\<And>s x. x \<in> set (g (fst s)) \<Longrightarrow> A (fst s) \<Longrightarrow> A (fst (f s x))"
    and same: "\<And>s x. x \<in> set (g (fst s)) \<Longrightarrow> g (fst (f s x)) = g (fst s)"
  shows "set xs \<subseteq> set (g (fst s)) \<Longrightarrow> A (fst s) \<Longrightarrow> A (fst (foldl f s xs))"
proof (induction xs arbitrary: s)
  case Nil
  then show ?case by simp
next
  case (Cons x xs)
  have "A (fst (f s x))" using step[of x s] Cons.prems by simp
  moreover have "set xs \<subseteq> set (g (fst (f s x)))" using Cons.prems(1) same[of x s] by simp
  ultimately show ?case using Cons.IH[of "f s x"] by simp
qed

lemma foldl_store_same:
  assumes same: "\<And>s x. x \<in> set (g (fst s)) \<Longrightarrow> g (fst (f s x)) = g (fst s)"
  shows "set xs \<subseteq> set (g (fst s)) \<Longrightarrow> g (fst (foldl f s xs)) = g (fst s)"
proof (induction xs arbitrary: s)
  case Nil
  show ?case by simp
next
  case (Cons x xs)
  have 1: "g (fst (f s x)) = g (fst s)" using same[of x s] Cons.prems by simp
  with Cons.prems have "set xs \<subseteq> set (g (fst (f s x)))" by simp
  from Cons.IH[OF this] 1 show ?case by simp
qed

lemma foldl_store_estab:
  assumes now: "\<And>s x. B x (fst (f s x))" and keep: "\<And>s x q. B q (fst s) \<Longrightarrow> B q (fst (f s x))"
  shows "\<forall>q\<in>set xs. B q (fst (foldl f s xs))"
proof (induction xs rule: rev_induct)
  case Nil
  show ?case by simp
next
  case (snoc x xs)
  show ?case
    using snoc.IH now[of x "foldl f s xs"] keep[of _ "foldl f s xs" x] by auto
qed

lemma stableD:
  assumes "stable A"
  shows "A m \<Longrightarrow> A (dedupParents i m)" "A m \<Longrightarrow> A (dedupChildren i m)" "A m \<Longrightarrow> A (dedupPartners i m)"
    "q \<in> set (fieldOf parents (fst s) i) \<Longrightarrow> A (fst s) \<Longrightarrow> A (fst (mirrorParent i s q))"
    "q \<in> set (fieldOf children (fst s) i) \<Longrightarrow> A (fst s) \<Longrightarrow> A (fst (mirrorChild i s q))"
    "q \<in> set (fieldOf partners (fst s) i) \<Longrightarrow> A (fst s) \<Longrightarrow> A (fst (mirrorPartner i s q))"
  using assms unfolding stable_def by blast+

lemma stageParents_stable:
  assumes "stable A" "A (fst s)"
  shows "A (fst (stageParents i s))"
  unfolding stageParents_def
proof (rule foldl_store_pres[where g = "\<lambda>m. fieldOf parents m i" and A = A])
  show "A (fst (dedupParents i (fst s), snd s))" using stableD(1)[OF assms] by simp
qed (simp_all add: stableD(4)[OF assms(1)] mirrorParent_fields)

lemma stageChildren_stable:
  assumes "stable A" "A (fst s)"
  shows "A (fst (stageChildren i s))"
  unfolding stageChildren_def
proof (rule foldl_store_pres[where g = "\<lambda>m. fieldOf children m i" and A = A])
  show "A (fst (dedupChildren i (fst s), snd s))" using stableD(2)[OF assms] by simp
qed (simp_all add: stableD(5)[OF assms(1)] mirrorChild_fields)

lemma stagePartners_stable:
  assumes "stable A" "A (fst s)"
  shows "A (fst (stagePartners i s))"
  unfolding stagePartners_def
proof (rule foldl_store_pres[where g = "\<lambda>m. fieldOf partners m i" and A = A])
  show "A (fst (dedupPartners i (fst s), snd s))" using stableD(3)[OF assms] by simp
qed (auto simp: stableD(6)[OF assms(1)] mirrorPartner_fields)

lemma repairEntry_stable:
  assumes "stable A" "A (fst s)"
  shows "A (fst (repairEntry s i))"
proof -
  have "A (fst (stageParents i s))" by (rule stageParents_stable[OF assms])
  then have "A (fst (stageChildren i (stageParents i s)))" by (rule stageChildren_stable[OF assms(1)])
  then have "A (fst (stagePartners i (stageChildren i (stageParents i s))))"
    by (rule stagePartners_stable[OF assms(1)])
  then show ?thesis by (simp add: repairEntry_stages)
qed

lemma repairData_fold_stable:
  assumes "stable A"
  shows "A (fst s) \<Longrightarrow> A (fst (foldl repairEntry s ks))"
  by (induction ks arbitrary: s) (simp_all add: repairEntry_stable[OF assms])

lemma stageParents_estab:
  "distinct (fieldOf parents (fst (stageParents i s)) i)" "mirPar (fst (stageParents i s)) i"
proof -
  let ?m1 = "dedupParents i (fst s)"
  let ?ps = "fieldOf parents ?m1 i"
  let ?s' = "foldl (mirrorParent i) (?m1, snd s) ?ps"
  have same: "fieldOf parents (fst ?s') i = ?ps"
    using foldl_store_same[where g = "\<lambda>m. fieldOf parents m i" and f = "mirrorParent i"
        and s = "(?m1, snd s)" and xs = ?ps]
    by (simp add: mirrorParent_fields)
  have "distinct ?ps" by (simp add: dedupParents_fields newSet_distinct)
  with same show "distinct (fieldOf parents (fst (stageParents i s)) i)"
    by (simp add: stageParents_def)
  have "\<forall>q\<in>set ?ps. q \<in> dom (map_of (fst ?s')) \<longrightarrow> i \<in> set (fieldOf children (fst ?s') q)"
    by (rule foldl_store_estab[where B = "\<lambda>q m. q \<in> dom (map_of m) \<longrightarrow> i \<in> set (fieldOf children m q)"])
       (auto simp: mirrorParent_fields)
  with same show "mirPar (fst (stageParents i s)) i"
    by (simp add: stageParents_def mirPar_def)
qed

lemma stageChildren_estab:
  "distinct (fieldOf children (fst (stageChildren i s)) i)" "mirChi (fst (stageChildren i s)) i"
proof -
  let ?m1 = "dedupChildren i (fst s)"
  let ?ps = "fieldOf children ?m1 i"
  let ?s' = "foldl (mirrorChild i) (?m1, snd s) ?ps"
  have same: "fieldOf children (fst ?s') i = ?ps"
    using foldl_store_same[where g = "\<lambda>m. fieldOf children m i" and f = "mirrorChild i"
        and s = "(?m1, snd s)" and xs = ?ps]
    by (simp add: mirrorChild_fields)
  have "distinct ?ps" by (simp add: dedupChildren_fields newSet_distinct)
  with same show "distinct (fieldOf children (fst (stageChildren i s)) i)"
    by (simp add: stageChildren_def)
  have "\<forall>q\<in>set ?ps. q \<in> dom (map_of (fst ?s')) \<longrightarrow> i \<in> set (fieldOf parents (fst ?s') q)"
    by (rule foldl_store_estab[where B = "\<lambda>q m. q \<in> dom (map_of m) \<longrightarrow> i \<in> set (fieldOf parents m q)"])
       (auto simp: mirrorChild_fields)
  with same show "mirChi (fst (stageChildren i s)) i"
    by (simp add: stageChildren_def mirChi_def)
qed

lemma stagePartners_estab:
  "distinct (fieldOf partners (fst (stagePartners i s)) i)" "mirPrt (fst (stagePartners i s)) i"
proof -
  let ?m1 = "dedupPartners i (fst s)"
  let ?ps = "fieldOf partners ?m1 i"
  let ?s' = "foldl (mirrorPartner i) (?m1, snd s) ?ps"
  have step: "\<And>s x. x \<in> set (fieldOf partners (fst s) i) \<Longrightarrow>
                fieldOf partners (fst (mirrorPartner i s x)) i = fieldOf partners (fst s) i"
    by (auto simp: mirrorPartner_fields)
  have same: "fieldOf partners (fst ?s') i = ?ps"
    using foldl_store_same[where g = "\<lambda>m. fieldOf partners m i" and f = "mirrorPartner i"
        and s = "(?m1, snd s)" and xs = ?ps, OF step]
    by simp
  have "distinct ?ps" by (simp add: dedupPartners_fields newSet_distinct)
  with same show "distinct (fieldOf partners (fst (stagePartners i s)) i)"
    by (simp add: stagePartners_def)
  have "\<forall>q\<in>set ?ps. q \<in> dom (map_of (fst ?s')) \<longrightarrow> i \<in> set (fieldOf partners (fst ?s') q)"
    by (rule foldl_store_estab[where B = "\<lambda>q m. q \<in> dom (map_of m) \<longrightarrow> i \<in> set (fieldOf partners m q)"])
       (auto simp: mirrorPartner_fields)
  with same show "mirPrt (fst (stagePartners i s)) i"
    by (simp add: stagePartners_def mirPrt_def)
qed

lemma repairEntry_estab:
  "noDups (fst (repairEntry s i)) i" "mirPar (fst (repairEntry s i)) i"
  "mirChi (fst (repairEntry s i)) i" "mirPrt (fst (repairEntry s i)) i"
proof -
  let ?s1 = "stageParents i s"
  let ?s2 = "stageChildren i ?s1"
  let ?s3 = "stagePartners i ?s2"
  have e: "repairEntry s i = ?s3" by (rule repairEntry_stages)
  have p3: "distinct (fieldOf parents (fst ?s3) i)"
    by (intro stagePartners_stable[OF stable_distinct_parents] stageChildren_stable[OF stable_distinct_parents]
        stageParents_estab)
  have c3: "distinct (fieldOf children (fst ?s3) i)"
    by (intro stagePartners_stable[OF stable_distinct_children] stageChildren_estab)
  have r3: "distinct (fieldOf partners (fst ?s3) i)"
    by (rule stagePartners_estab)
  from p3 c3 r3 show "noDups (fst (repairEntry s i)) i" by (simp add: e noDups_def)
  show "mirPar (fst (repairEntry s i)) i"
    unfolding e
    by (intro stagePartners_stable[OF stable_mirPar] stageChildren_stable[OF stable_mirPar] stageParents_estab)
  show "mirChi (fst (repairEntry s i)) i"
    unfolding e by (intro stagePartners_stable[OF stable_mirChi] stageChildren_estab)
  show "mirPrt (fst (repairEntry s i)) i"
    unfolding e by (rule stagePartners_estab)
qed

lemma repairData_fold_good:
  "\<forall>a\<in>set ks. noDups (fst (foldl repairEntry s ks)) a \<and> mirPar (fst (foldl repairEntry s ks)) a \<and>
              mirChi (fst (foldl repairEntry s ks)) a \<and> mirPrt (fst (foldl repairEntry s ks)) a"
proof (induction ks rule: rev_induct)
  case Nil
  show ?case by simp
next
  case (snoc k ks)
  let ?s = "foldl repairEntry s ks"
  have last: "noDups (fst (repairEntry ?s k)) k" "mirPar (fst (repairEntry ?s k)) k"
    "mirChi (fst (repairEntry ?s k)) k" "mirPrt (fst (repairEntry ?s k)) k"
    by (rule repairEntry_estab)+
  have old: "noDups (fst (repairEntry ?s k)) a \<and> mirPar (fst (repairEntry ?s k)) a \<and>
             mirChi (fst (repairEntry ?s k)) a \<and> mirPrt (fst (repairEntry ?s k)) a" if "a \<in> set ks" for a
  proof -
    from snoc.IH that have g: "noDups (fst ?s) a" "mirPar (fst ?s) a" "mirChi (fst ?s) a" "mirPrt (fst ?s) a"
      by auto
    have "distinct (fieldOf parents (fst (repairEntry ?s k)) a)"
      using g(1) by (intro repairEntry_stable[OF stable_distinct_parents]) (simp add: noDups_def)
    moreover have "distinct (fieldOf children (fst (repairEntry ?s k)) a)"
      using g(1) by (intro repairEntry_stable[OF stable_distinct_children]) (simp add: noDups_def)
    moreover have "distinct (fieldOf partners (fst (repairEntry ?s k)) a)"
      using g(1) by (intro repairEntry_stable[OF stable_distinct_partners]) (simp add: noDups_def)
    moreover have "mirPar (fst (repairEntry ?s k)) a"
      by (rule repairEntry_stable[OF stable_mirPar g(2)])
    moreover have "mirChi (fst (repairEntry ?s k)) a"
      by (rule repairEntry_stable[OF stable_mirChi g(3)])
    moreover have "mirPrt (fst (repairEntry ?s k)) a"
      by (rule repairEntry_stable[OF stable_mirPrt g(4)])
    ultimately show ?thesis by (simp add: noDups_def)
  qed
  show ?case
    using last old by auto
qed

lemma stable_dom: "stable (\<lambda>m. dom (map_of m) = X)"
  by (simp add: stable_def dedupParents_fields dedupChildren_fields dedupPartners_fields
      mirrorParent_fields mirrorChild_fields mirrorPartner_fields)

lemma repairData_dom: "dom (map_of (fst (repairData m))) = dom (map_of m)"
  unfolding repairData_def
  by (rule repairData_fold_stable[OF stable_dom]) simp

lemma absent_good:
  assumes "a \<notin> dom (map_of m)"
  shows "noDups m a" "mirPar m a" "mirChi m a" "mirPrt m a"
  using assms by (auto simp: noDups_def mir_defs fieldOf_def split: option.splits)

lemma repairData_consistent: "consistent (fst (repairData m))"
  unfolding consistent_def
proof
  fix a
  show "noDups (fst (repairData m)) a \<and> mirPar (fst (repairData m)) a \<and>
        mirChi (fst (repairData m)) a \<and> mirPrt (fst (repairData m)) a"
  proof (cases "a \<in> dom (map_of m)")
    case True
    then have "a \<in> set (map fst m)" by (simp add: dom_map_of_conv_image_fst)
    with repairData_fold_good[of "map fst m" "(m, False)"] show ?thesis
      unfolding repairData_def by blast
  next
    case False
    then have "a \<notin> dom (map_of (fst (repairData m)))" by (simp add: repairData_dom)
    then show ?thesis using absent_good by blast
  qed
qed

text \<open>On a consistent store no step changes anything.\<close>

lemma foldl_fixed: "(\<And>x. x \<in> set xs \<Longrightarrow> f s x = s) \<Longrightarrow> foldl f s xs = s"
  by (induction xs) simp_all

lemma dedup_fixed:
  assumes "noDups m i"
  shows "dedupParents i m = m" "dedupChildren i m = m" "dedupPartners i m = m"
  using assms
  by (auto simp: dedupParents_def dedupChildren_def dedupPartners_def noDups_def fieldOf_def
      newSet_id update_triv split: option.splits)

lemma mirrorParent_fixed:
  assumes "mirPar m i" "q \<in> set (fieldOf parents m i)"
  shows "mirrorParent i (m, ch) q = (m, ch)"
  using assms by (auto simp: mirrorParent_def mirPar_def fieldOf_def split: option.splits)

lemma mirrorChild_fixed:
  assumes "mirChi m i" "q \<in> set (fieldOf children m i)"
  shows "mirrorChild i (m, ch) q = (m, ch)"
  using assms by (auto simp: mirrorChild_def mirChi_def fieldOf_def split: option.splits)

lemma mirrorPartner_fixed:
  assumes "mirPrt m i" "q \<in> set (fieldOf partners m i)"
  shows "mirrorPartner i (m, ch) q = (m, ch)"
  using assms by (auto simp: mirrorPartner_def mirPrt_def fieldOf_def split: option.splits)

lemma repairEntry_fixed:
  assumes "consistent m"
  shows "repairEntry (m, ch) i = (m, ch)"
proof -
  from assms have g: "noDups m i" "mirPar m i" "mirChi m i" "mirPrt m i"
    by (auto simp: consistent_def)
  have 1: "stageParents i (m, ch) = (m, ch)"
    by (simp add: stageParents_def dedup_fixed[OF g(1)] foldl_fixed mirrorParent_fixed[OF g(2)])
  have 2: "stageChildren i (m, ch) = (m, ch)"
    by (simp add: stageChildren_def dedup_fixed[OF g(1)] foldl_fixed mirrorChild_fixed[OF g(3)])
  have 3: "stagePartners i (m, ch) = (m, ch)"
    by (simp add: stagePartners_def dedup_fixed[OF g(1)] foldl_fixed mirrorPartner_fixed[OF g(4)])
  show ?thesis by (simp add: repairEntry_stages 1 2 3)
qed

lemma repairData_fixed: "consistent m \<Longrightarrow> repairData m = (m, False)"
  unfolding repairData_def by (rule foldl_fixed) (rule repairEntry_fixed)

section \<open>The pre-processing pass of \<^verbatim>\<open>calculateLayout\<close> on a list with unique ids\<close>

lemma personIndex_Some:
  assumes "distinct (map pid st)"
  shows "personIndex st k = Some j \<longleftrightarrow> j < length st \<and> pid (st ! j) = k"
proof -
  let ?z = "zip (map pid st) [0..<length st]"
  have d: "distinct (map fst (rev ?z))" using assms by (simp add: rev_map[symmetric])
  have "personIndex st k = Some j \<longleftrightarrow> (k, j) \<in> set ?z"
    unfolding personIndex_def using map_of_eq_Some_iff[OF d] by simp
  also have "\<dots> \<longleftrightarrow> j < length st \<and> pid (st ! j) = k"
  proof
    assume "(k, j) \<in> set ?z"
    then obtain n where "map pid st ! n = k" "[0..<length st] ! n = j" "n < length st"
      by (auto simp: in_set_zip)
    then show "j < length st \<and> pid (st ! j) = k" by auto
  next
    assume a: "j < length st \<and> pid (st ! j) = k"
    then have "map pid st ! j = k \<and> [0..<length st] ! j = j \<and> j < length (map pid st) \<and> j < length [0..<length st]"
      by simp
    then show "(k, j) \<in> set ?z" unfolding in_set_zip by (intro exI[of _ j]) simp
  qed
  finally show ?thesis .
qed

lemma personIndex_None: "personIndex st k = None \<longleftrightarrow> k \<notin> pid ` set st"
proof -
  let ?z = "zip (map pid st) [0..<length st]"
  have "map fst ?z = map pid st" by (simp add: map_fst_zip)
  then have "fst ` set ?z = pid ` set st" by (metis set_map)
  then have "fst ` set (rev ?z) = pid ` set st" by simp
  then show ?thesis
    unfolding personIndex_def map_of_eq_None_iff by simp
qed

lemma personIndex_ids:
  assumes "map pid st = map pid st0"
  shows "personIndex st = personIndex st0"
proof -
  have "length st = length st0" using assms by (rule map_eq_imp_length_eq)
  with assms show ?thesis by (simp add: personIndex_def)
qed

lemma map_of_toStore:
  assumes "distinct (map pid st)"
  shows "map_of (toStore st) k = map_option (\<lambda>j. st ! j) (personIndex st k)"
proof (cases "personIndex st k")
  case None
  then have "k \<notin> fst ` set (toStore st)" by (simp add: personIndex_None toStore_def image_image)
  then have "map_of (toStore st) k = None" by (simp add: map_of_eq_None_iff)
  with None show ?thesis by simp
next
  case (Some j)
  then have j: "j < length st" "pid (st ! j) = k" using personIndex_Some[OF assms] by auto
  have d: "distinct (map fst (toStore st))" using assms by (simp add: toStore_def comp_def)
  have "(k, st ! j) \<in> set (toStore st)" using j by (auto simp: toStore_def)
  then have "map_of (toStore st) k = Some (st ! j)" using map_of_eq_Some_iff[OF d] by simp
  with Some show ?thesis by simp
qed

lemma update_toStore:
  "distinct (map pid st) \<Longrightarrow> j < length st \<Longrightarrow> pid (st ! j) = pid v \<Longrightarrow>
   AList.update (pid v) v (toStore st) = toStore (st[j := v])"
proof (induction st arbitrary: j)
  case Nil
  then show ?case by simp
next
  case (Cons p st)
  show ?case
  proof (cases j)
    case 0
    with Cons.prems show ?thesis by (simp add: toStore_def)
  next
    case (Suc j')
    with Cons.prems have mem: "st ! j' \<in> set st" and eq: "pid (st ! j') = pid v" by simp_all
    from Cons.prems(1) have "pid p \<notin> pid ` set st" by simp
    with mem eq have "pid p \<noteq> pid v" by (metis imageI)
    moreover have "AList.update (pid v) v (toStore st) = toStore (st[j' := v])"
      using Cons.IH[of j'] Cons.prems Suc by simp
    ultimately show ?thesis using Suc by (simp add: toStore_def)
  qed
qed

lemma snd_toStore: "map snd (toStore st) = st"
  by (simp add: toStore_def comp_def)

lemma toStore_inj:
  assumes "toStore st = toStore st'"
  shows "st = st'"
proof -
  have "st = map snd (toStore st)" by (simp only: snd_toStore)
  also have "\<dots> = map snd (toStore st')" by (simp only: assms)
  also have "\<dots> = st'" by (simp only: snd_toStore)
  finally show ?thesis .
qed

lemma sim_ensureParent:
  assumes d: "distinct (map pid st)"
  shows "mirrorChild me (toStore st, ch) c =
           (toStore (ensureParent (personIndex st) me st c), ch \<or> ensureParent (personIndex st) me st c \<noteq> st)"
proof (cases "personIndex st c")
  case None
  then show ?thesis
    by (simp add: mirrorChild_def ensureParent_def map_of_toStore[OF d])
next
  case (Some j)
  then have j: "j < length st" "pid (st ! j) = c" using personIndex_Some[OF d] by auto
  show ?thesis
  proof (cases "me \<in> set (parents (st ! j))")
    case True
    with Some show ?thesis
      by (simp add: mirrorChild_def ensureParent_def map_of_toStore[OF d])
  next
    case False
    let ?v = "(st ! j)\<lparr>parents := parents (st ! j) @ [me]\<rparr>"
    have "AList.update (pid ?v) ?v (toStore st) = toStore (st[j := ?v])"
      by (rule update_toStore[OF d j(1)]) simp
    then have u: "AList.update c ?v (toStore st) = toStore (st[j := ?v])" using j(2) by simp
    have ne: "st[j := ?v] \<noteq> st"
    proof
      assume "st[j := ?v] = st"
      then have "st[j := ?v] ! j = st ! j" by simp
      then have "?v = st ! j" using j(1) by simp
      then have "parents ?v = parents (st ! j)" by simp
      then show False by simp
    qed
    from False Some u ne show ?thesis
      by (simp add: mirrorChild_def ensureParent_def map_of_toStore[OF d])
  qed
qed

lemma sim_ensureChild:
  assumes d: "distinct (map pid st)"
  shows "mirrorParent me (toStore st, ch) c =
           (toStore (ensureChild (personIndex st) me st c), ch \<or> ensureChild (personIndex st) me st c \<noteq> st)"
proof (cases "personIndex st c")
  case None
  then show ?thesis
    by (simp add: mirrorParent_def ensureChild_def map_of_toStore[OF d])
next
  case (Some j)
  then have j: "j < length st" "pid (st ! j) = c" using personIndex_Some[OF d] by auto
  show ?thesis
  proof (cases "me \<in> set (children (st ! j))")
    case True
    with Some show ?thesis
      by (simp add: mirrorParent_def ensureChild_def map_of_toStore[OF d])
  next
    case False
    let ?v = "(st ! j)\<lparr>children := children (st ! j) @ [me]\<rparr>"
    have "AList.update (pid ?v) ?v (toStore st) = toStore (st[j := ?v])"
      by (rule update_toStore[OF d j(1)]) simp
    then have u: "AList.update c ?v (toStore st) = toStore (st[j := ?v])" using j(2) by simp
    have ne: "st[j := ?v] \<noteq> st"
    proof
      assume "st[j := ?v] = st"
      then have "st[j := ?v] ! j = st ! j" by simp
      then have "?v = st ! j" using j(1) by simp
      then have "children ?v = children (st ! j)" by simp
      then show False by simp
    qed
    from False Some u ne show ?thesis
      by (simp add: mirrorParent_def ensureChild_def map_of_toStore[OF d])
  qed
qed

lemma sim_fold_ensureParent:
  assumes ids: "map pid st = map pid st0" and d: "distinct (map pid st0)"
  shows "fst (foldl (mirrorChild me) (toStore st, ch) cs)
           = toStore (foldl (ensureParent (personIndex st0) me) st cs)"
  using ids
proof (induction cs arbitrary: st ch)
  case Nil
  show ?case by simp
next
  case (Cons c cs)
  have d': "distinct (map pid st)" using d Cons.prems by simp
  have ix: "personIndex st = personIndex st0" by (rule personIndex_ids[OF Cons.prems])
  have ids': "map pid (ensureParent (personIndex st0) me st c) = map pid st0"
    using Cons.prems by (simp add: ensureParent_ids)
  show ?case
    using Cons.IH[OF ids'] by (simp add: sim_ensureParent[OF d'] ix)
qed

lemma sim_fold_ensureChild:
  assumes ids: "map pid st = map pid st0" and d: "distinct (map pid st0)"
  shows "fst (foldl (mirrorParent me) (toStore st, ch) cs)
           = toStore (foldl (ensureChild (personIndex st0) me) st cs)"
  using ids
proof (induction cs arbitrary: st ch)
  case Nil
  show ?case by simp
next
  case (Cons c cs)
  have d': "distinct (map pid st)" using d Cons.prems by simp
  have ix: "personIndex st = personIndex st0" by (rule personIndex_ids[OF Cons.prems])
  have ids': "map pid (ensureChild (personIndex st0) me st c) = map pid st0"
    using Cons.prems by (simp add: ensureChild_ids)
  show ?case
    using Cons.IH[OF ids'] by (simp add: sim_ensureChild[OF d'] ix)
qed

lemma fieldOf_toStore:
  assumes "distinct (map pid st)" "i < length st"
  shows "fieldOf f (toStore st) (pid (st ! i)) = f (st ! i)"
proof -
  have "personIndex st (pid (st ! i)) = Some i"
    using personIndex_Some[OF assms(1)] assms(2) by simp
  then show ?thesis by (simp add: fieldOf_def map_of_toStore[OF assms(1)])
qed

lemma sim_repairPerson:
  assumes ids: "map pid st = map pid st0" and d: "distinct (map pid st0)" and i: "i < length st0"
  shows "fst (inlineEntry (toStore st, ch) (pid (st0 ! i))) = toStore (repairPerson (personIndex st0) st i)"
proof -
  have d': "distinct (map pid st)" using d ids by simp
  have len: "length st = length st0" using ids by (rule map_eq_imp_length_eq)
  have me: "pid (st ! i) = pid (st0 ! i)" using ids i len by (metis nth_map)
  let ?me = "pid (st0 ! i)"
  let ?st1 = "foldl (ensureParent (personIndex st0) ?me) st (children (st ! i))"
  have c: "fieldOf children (toStore st) ?me = children (st ! i)"
    using fieldOf_toStore[OF d', of i children] i len me by simp
  have ids1: "map pid ?st1 = map pid st0"
    using ids by (simp add: foldl_ids ensureParent_ids)
  have d1: "distinct (map pid ?st1)" using d ids1 by simp
  have me1: "pid (?st1 ! i) = ?me" using ids1 i by (metis length_map nth_map)
  have len1: "i < length ?st1" using ids1 i by (metis length_map)
  obtain m1 c1 where s1: "foldl (mirrorChild ?me) (toStore st, ch) (children (st ! i)) = (m1, c1)"
    by (cases "foldl (mirrorChild ?me) (toStore st, ch) (children (st ! i))")
  have m1: "m1 = toStore ?st1"
    using sim_fold_ensureParent[OF ids d, of ?me ch "children (st ! i)"] s1 by simp
  have p: "fieldOf parents m1 ?me = parents (?st1 ! i)"
    using fieldOf_toStore[OF d1 len1, of parents] me1 m1 by simp
  have "fst (foldl (mirrorParent ?me) (m1, c1) (parents (?st1 ! i)))
          = toStore (foldl (ensureChild (personIndex st0) ?me) ?st1 (parents (?st1 ! i)))"
    unfolding m1 by (rule sim_fold_ensureChild[OF ids1 d])
  then show ?thesis
    by (simp add: inlineEntry_def Let_def c s1 p repairPerson_def me)
qed

lemma sim_repair_fold:
  assumes d: "distinct (map pid st0)"
  shows "map pid st = map pid st0 \<Longrightarrow> set is \<subseteq> {..<length st0} \<Longrightarrow>
         fst (foldl inlineEntry (toStore st, ch) (map (\<lambda>i. pid (st0 ! i)) is))
           = toStore (foldl (repairPerson (personIndex st0)) st is)"
proof (induction "is" arbitrary: st ch)
  case Nil
  show ?case by simp
next
  case (Cons i "is")
  from Cons.prems have i: "i < length st0" by simp
  let ?st1 = "repairPerson (personIndex st0) st i"
  obtain m1 c1 where s1: "inlineEntry (toStore st, ch) (pid (st0 ! i)) = (m1, c1)"
    by (cases "inlineEntry (toStore st, ch) (pid (st0 ! i))")
  have m1: "m1 = toStore ?st1"
    using sim_repairPerson[OF Cons.prems(1) d i, of ch] s1 by simp
  have ids1: "map pid ?st1 = map pid st0" using Cons.prems(1) by (simp add: repairPerson_ids)
  have "fst (foldl inlineEntry (toStore ?st1, c1) (map (\<lambda>i. pid (st0 ! i)) is))
          = toStore (foldl (repairPerson (personIndex st0)) ?st1 is)"
    using Cons.IH[OF ids1] Cons.prems(2) by simp
  then show ?case by (simp add: s1 m1)
qed

lemma sim_repairLinks:
  assumes d: "distinct (map pid people)"
  shows "toStore (repairLinks people) = fst (foldl inlineEntry (toStore people, False) (map pid people))"
proof -
  have "map pid (map ((!) people) [0..<length people]) = map pid people"
    by (simp only: map_nth)
  then have m: "map (\<lambda>i. pid (people ! i)) [0..<length people] = map pid people"
    by (simp only: map_map comp_def)
  have "set [0..<length people] \<subseteq> {..<length people}" by auto
  from sim_repair_fold[OF d refl this, of False] show ?thesis
    unfolding m repairLinks_def by simp
qed

text \<open>The steps on the store: what they keep, what they establish, when they do nothing.\<close>

lemma inlineEntry_stable:
  assumes "stable A" "A (fst s)"
  shows "A (fst (inlineEntry s me))"
proof -
  let ?s1 = "foldl (mirrorChild me) s (fieldOf children (fst s) me)"
  have 1: "A (fst ?s1)"
    by (rule foldl_store_pres[where g = "\<lambda>m. fieldOf children m me" and A = A])
       (simp_all add: stableD(5)[OF assms(1)] mirrorChild_fields assms(2))
  have "A (fst (foldl (mirrorParent me) ?s1 (fieldOf parents (fst ?s1) me)))"
    by (rule foldl_store_pres[where g = "\<lambda>m. fieldOf parents m me" and A = A])
       (simp_all add: stableD(4)[OF assms(1)] mirrorParent_fields 1)
  then show ?thesis by (simp add: inlineEntry_def Let_def)
qed

lemma inlineEntry_estab: "mirChi (fst (inlineEntry s me)) me" "mirPar (fst (inlineEntry s me)) me"
proof -
  let ?cs = "fieldOf children (fst s) me"
  let ?s1 = "foldl (mirrorChild me) s ?cs"
  let ?ps = "fieldOf parents (fst ?s1) me"
  let ?s2 = "foldl (mirrorParent me) ?s1 ?ps"
  have e: "inlineEntry s me = ?s2" by (simp add: inlineEntry_def Let_def)
  have same1: "fieldOf children (fst ?s1) me = ?cs"
    using foldl_store_same[where g = "\<lambda>m. fieldOf children m me" and f = "mirrorChild me"
        and s = s and xs = ?cs]
    by (simp add: mirrorChild_fields)
  have "\<forall>q\<in>set ?cs. q \<in> dom (map_of (fst ?s1)) \<longrightarrow> me \<in> set (fieldOf parents (fst ?s1) q)"
    by (rule foldl_store_estab[where B = "\<lambda>q m. q \<in> dom (map_of m) \<longrightarrow> me \<in> set (fieldOf parents m q)"])
       (auto simp: mirrorChild_fields)
  with same1 have c1: "mirChi (fst ?s1) me" by (simp add: mirChi_def)
  have "mirChi (fst ?s2) me"
    by (rule foldl_store_pres[where g = "\<lambda>m. fieldOf parents m me" and A = "\<lambda>m. mirChi m me"])
       (simp_all add: stableD(4)[OF stable_mirChi] mirrorParent_fields c1)
  then show "mirChi (fst (inlineEntry s me)) me" by (simp add: e)
  have same2: "fieldOf parents (fst ?s2) me = ?ps"
    using foldl_store_same[where g = "\<lambda>m. fieldOf parents m me" and f = "mirrorParent me"
        and s = ?s1 and xs = ?ps]
    by (simp add: mirrorParent_fields)
  have "\<forall>q\<in>set ?ps. q \<in> dom (map_of (fst ?s2)) \<longrightarrow> me \<in> set (fieldOf children (fst ?s2) q)"
    by (rule foldl_store_estab[where B = "\<lambda>q m. q \<in> dom (map_of m) \<longrightarrow> me \<in> set (fieldOf children m q)"])
       (auto simp: mirrorParent_fields)
  with same2 have "mirPar (fst ?s2) me" by (simp add: mirPar_def)
  then show "mirPar (fst (inlineEntry s me)) me" by (simp add: e)
qed

lemma inline_fold_stable:
  assumes "stable A"
  shows "A (fst s) \<Longrightarrow> A (fst (foldl inlineEntry s ks))"
  by (induction ks arbitrary: s) (simp_all add: inlineEntry_stable[OF assms])

lemma inline_fold_good:
  "\<forall>a\<in>set ks. mirPar (fst (foldl inlineEntry s ks)) a \<and> mirChi (fst (foldl inlineEntry s ks)) a"
proof (induction ks rule: rev_induct)
  case Nil
  show ?case by simp
next
  case (snoc k ks)
  let ?s = "foldl inlineEntry s ks"
  have old: "mirPar (fst (inlineEntry ?s k)) a \<and> mirChi (fst (inlineEntry ?s k)) a" if "a \<in> set ks" for a
    using snoc.IH that inlineEntry_stable[OF stable_mirPar] inlineEntry_stable[OF stable_mirChi] by blast
  show ?case
    using old inlineEntry_estab[of ?s k] by auto
qed

lemma inlineEntry_fixed:
  assumes "mirPar m me" "mirChi m me"
  shows "inlineEntry (m, ch) me = (m, ch)"
proof -
  have 1: "foldl (mirrorChild me) (m, ch) (fieldOf children m me) = (m, ch)"
    by (rule foldl_fixed) (rule mirrorChild_fixed[OF assms(2)])
  have 2: "foldl (mirrorParent me) (m, ch) (fieldOf parents m me) = (m, ch)"
    by (rule foldl_fixed) (rule mirrorParent_fixed[OF assms(1)])
  show ?thesis by (simp add: inlineEntry_def Let_def 1 2)
qed

lemma repairLinks_mirrored:
  assumes d: "distinct (map pid people)"
  shows "mirPar (toStore (repairLinks people)) a" "mirChi (toStore (repairLinks people)) a"
proof -
  let ?m = "fst (foldl inlineEntry (toStore people, False) (map pid people))"
  have "dom (map_of ?m) = dom (map_of (toStore people))"
    by (rule inline_fold_stable[OF stable_dom]) simp
  then have dom: "dom (map_of ?m) = pid ` set people"
    by (simp add: dom_map_of_conv_image_fst toStore_def image_image)
  have "mirPar ?m a \<and> mirChi ?m a"
  proof (cases "a \<in> pid ` set people")
    case True
    then have "a \<in> set (map pid people)" by simp
    with inline_fold_good[of "map pid people" "(toStore people, False)"] show ?thesis by blast
  next
    case False
    then show ?thesis using absent_good[of a ?m] dom by simp
  qed
  then show "mirPar (toStore (repairLinks people)) a" "mirChi (toStore (repairLinks people)) a"
    by (simp_all add: sim_repairLinks[OF d])
qed

lemma repairLinks_idem:
  assumes d: "distinct (map pid people)"
  shows "repairLinks (repairLinks people) = repairLinks people"
proof -
  let ?r = "repairLinks people"
  have d': "distinct (map pid ?r)" using d by (simp add: repairLinks_ids)
  have "foldl inlineEntry (toStore ?r, False) (map pid ?r) = (toStore ?r, False)"
    by (rule foldl_fixed) (rule inlineEntry_fixed[OF repairLinks_mirrored[OF d]])
  then have "toStore (repairLinks ?r) = toStore ?r"
    by (simp add: sim_repairLinks[OF d'])
  then show ?thesis by (rule toStore_inj)
qed

lemma personMap_toStore:
  assumes "distinct (map pid st)"
  shows "personMap st = map_of (toStore st)"
proof -
  have d: "distinct (map fst (toStore st))" using assms by (simp add: toStore_def comp_def)
  then have d': "distinct (map fst (rev (toStore st)))" by (simp add: rev_map[symmetric])
  have "map_of (rev (toStore st)) = map_of (toStore st)"
    using map_of_inject_set[OF d' d] by simp
  then show ?thesis by (simp add: personMap_def toStore_def rev_map)
qed

lemma fieldOf_Some: "map_of m a = Some p \<Longrightarrow> fieldOf f m a = f p"
  by (simp add: fieldOf_def)

lemma mirParD: "mirPar m a \<Longrightarrow> q \<in> set (fieldOf parents m a) \<Longrightarrow> map_of m q = Some r \<Longrightarrow> a \<in> set (children r)"
  unfolding mirPar_def by (drule bspec, assumption) (auto simp: fieldOf_def)

lemma mirChiD: "mirChi m a \<Longrightarrow> q \<in> set (fieldOf children m a) \<Longrightarrow> map_of m q = Some r \<Longrightarrow> a \<in> set (parents r)"
  unfolding mirChi_def by (drule bspec, assumption) (auto simp: fieldOf_def)

lemma mirPrtD: "mirPrt m a \<Longrightarrow> q \<in> set (fieldOf partners m a) \<Longrightarrow> map_of m q = Some r \<Longrightarrow> a \<in> set (partners r)"
  unfolding mirPrt_def by (drule bspec, assumption) (auto simp: fieldOf_def)

lemma consistent_entry:
  assumes c: "consistent m" and p: "map_of m a = Some p"
  shows "distinct (parents p) \<and> distinct (children p) \<and> distinct (partners p) \<and>
         (\<forall>q\<in>set (parents p). \<forall>r. map_of m q = Some r \<longrightarrow> a \<in> set (children r)) \<and>
         (\<forall>q\<in>set (children p). \<forall>r. map_of m q = Some r \<longrightarrow> a \<in> set (parents r)) \<and>
         (\<forall>q\<in>set (partners p). \<forall>r. map_of m q = Some r \<longrightarrow> a \<in> set (partners r))"
proof -
  from c have g: "noDups m a" "mirPar m a" "mirChi m a" "mirPrt m a" by (auto simp: consistent_def)
  from g(1) p have 1: "distinct (parents p) \<and> distinct (children p) \<and> distinct (partners p)"
    by (simp add: noDups_def fieldOf_Some)
  have 2: "\<forall>q\<in>set (parents p). \<forall>r. map_of m q = Some r \<longrightarrow> a \<in> set (children r)"
    using mirParD[OF g(2)] p by (simp add: fieldOf_Some)
  have 3: "\<forall>q\<in>set (children p). \<forall>r. map_of m q = Some r \<longrightarrow> a \<in> set (parents r)"
    using mirChiD[OF g(3)] p by (simp add: fieldOf_Some)
  have 4: "\<forall>q\<in>set (partners p). \<forall>r. map_of m q = Some r \<longrightarrow> a \<in> set (partners r)"
    using mirPrtD[OF g(4)] p by (simp add: fieldOf_Some)
  from 1 2 3 4 show ?thesis by simp
qed

lemma repairLinks_entry:
  assumes d: "distinct (map pid people)" and p: "p \<in> set (repairLinks people)"
  shows "(\<forall>q\<in>set (parents p). \<forall>r. personMap (repairLinks people) q = Some r \<longrightarrow> pid p \<in> set (children r)) \<and>
         (\<forall>c\<in>set (children p). \<forall>r. personMap (repairLinks people) c = Some r \<longrightarrow> pid p \<in> set (parents r))"
proof -
  let ?st = "repairLinks people"
  have d': "distinct (map pid ?st)" using d by (simp add: repairLinks_ids)
  have pm: "personMap ?st = map_of (toStore ?st)" by (rule personMap_toStore[OF d'])
  from p obtain i where i: "i < length ?st" "?st ! i = p" by (auto simp: in_set_conv_nth)
  have f: "fieldOf parents (toStore ?st) (pid p) = parents p" "fieldOf children (toStore ?st) (pid p) = children p"
    using fieldOf_toStore[OF d' i(1)] i(2) by simp_all
  have 1: "\<forall>q\<in>set (parents p). \<forall>r. personMap ?st q = Some r \<longrightarrow> pid p \<in> set (children r)"
    using mirParD[OF repairLinks_mirrored(1)[OF d, of "pid p"]] f(1) unfolding pm
    by simp
  have 2: "\<forall>c\<in>set (children p). \<forall>r. personMap ?st c = Some r \<longrightarrow> pid p \<in> set (parents r)"
    using mirChiD[OF repairLinks_mirrored(2)[OF d, of "pid p"]] f(2) unfolding pm
    by simp
  from 1 2 show ?thesis by simp
qed


lemmas field_simps_store = dedupParents_fields dedupChildren_fields dedupPartners_fields
  mirrorParent_fields mirrorChild_fields mirrorPartner_fields

lemma newSet_snoc: "newSet (xs @ [x]) = (if x \<in> set xs then newSet xs else newSet xs @ [x])"
  by (simp add: newSet_def setAdd_def foldl_setAdd_set)

lemma newSet_newSet: "newSet (newSet xs) = newSet xs"
  by (simp add: newSet_id newSet_distinct)

lemma stable_tracksFamily: "stable (tracksFamily m0)"
  unfolding stable_def tracksFamily_def reverseOf_def
  by (auto simp: field_simps_store newSet_set split: if_splits)

lemma stable_tracksPartners: "stable (tracksPartners m0)"
  unfolding stable_def tracksPartners_def reverseOf_def
  by (auto simp: field_simps_store newSet_set split: if_splits)

lemma stable_keeps_parents: "stable (\<lambda>m. keeps parents m0 m a)"
  unfolding stable_def keeps_def
  by (auto simp: field_simps_store newSet_set split: if_splits)

lemma stable_keeps_children: "stable (\<lambda>m. keeps children m0 m a)"
  unfolding stable_def keeps_def
  by (auto simp: field_simps_store newSet_set split: if_splits)

lemma stable_keeps_partners: "stable (\<lambda>m. keeps partners m0 m a)"
  unfolding stable_def keeps_def
  by (auto simp: field_simps_store newSet_set split: if_splits)

lemma stable_extends_parents: "stable (\<lambda>m. extends parents m0 m a)"
  unfolding stable_def extends_def
  by (auto simp: field_simps_store newSet_snoc newSet_newSet split: if_splits)

lemma stable_extends_children: "stable (\<lambda>m. extends children m0 m a)"
  unfolding stable_def extends_def
  by (auto simp: field_simps_store newSet_snoc newSet_newSet split: if_splits)

lemma stable_extends_partners: "stable (\<lambda>m. extends partners m0 m a)"
  unfolding stable_def extends_def
  by (auto simp: field_simps_store newSet_snoc newSet_newSet split: if_splits)


lemma keys_update_present: "map_of m k = Some p \<Longrightarrow> map fst (AList.update k v m) = map fst m"
  by (induction m) (auto split: if_splits)

lemma core_update:
  "map_of m k = Some p \<Longrightarrow> core v = core p \<Longrightarrow>
     map_option core (map_of (AList.update k v m) a) = map_option core (map_of m a)"
  by (simp add: update_conv')

lemma stable_sameCore: "stable (sameCore m0)"
  unfolding stable_def sameCore_def
  by (auto simp: dedupParents_def dedupChildren_def dedupPartners_def
        mirrorParent_def mirrorChild_def mirrorPartner_def keys_update_present core_update core_def
      split: option.splits)


lemma reverseOf_alt: "reverseOf f m a = {b. \<exists>q. map_of m b = Some q \<and> a \<in> set (f q)}"
  by (auto simp: reverseOf_def fieldOf_def split: option.splits) metis

lemma core_eq: "core p' = core p \<Longrightarrow> p' = p\<lparr>parents := parents p', children := children p', partners := partners p'\<rparr>"
  by (cases p, cases p') (simp add: core_def)

lemma repairData_tracks:
  "tracksFamily m (fst (repairData m))" "tracksPartners m (fst (repairData m))"
  "keeps parents m (fst (repairData m)) a" "keeps children m (fst (repairData m)) a"
  "keeps partners m (fst (repairData m)) a"
  "extends parents m (fst (repairData m)) a" "extends children m (fst (repairData m)) a"
  "extends partners m (fst (repairData m)) a"
  "sameCore m (fst (repairData m))"
  unfolding repairData_def
  by (rule repairData_fold_stable[OF stable_tracksFamily] repairData_fold_stable[OF stable_tracksPartners]
        repairData_fold_stable[OF stable_keeps_parents] repairData_fold_stable[OF stable_keeps_children]
        repairData_fold_stable[OF stable_keeps_partners]
        repairData_fold_stable[OF stable_extends_parents] repairData_fold_stable[OF stable_extends_children]
        repairData_fold_stable[OF stable_extends_partners] repairData_fold_stable[OF stable_sameCore],
      simp add: tracksFamily_def tracksPartners_def keeps_def extends_def sameCore_def)+

lemma repairData_sets:
  assumes a: "a \<in> dom (map_of m)"
  shows "set (fieldOf parents (fst (repairData m)) a) = set (fieldOf parents m a) \<union> reverseOf children m a"
    and "set (fieldOf children (fst (repairData m)) a) = set (fieldOf children m a) \<union> reverseOf parents m a"
    and "set (fieldOf partners (fst (repairData m)) a) = set (fieldOf partners m a) \<union> reverseOf partners m a"
proof -
  let ?m' = "fst (repairData m)"
  have a': "a \<in> dom (map_of ?m')" using a by (simp add: repairData_dom)
  have cons: "consistent ?m'" by (rule repairData_consistent)
  have back_par: "b \<in> set (fieldOf parents ?m' a)" if "b \<in> reverseOf children m a" for b
  proof -
    from that have "a \<in> set (fieldOf children m b)" by (simp add: reverseOf_def)
    with repairData_tracks(4)[of m b] have "a \<in> set (fieldOf children ?m' b)" by (auto simp: keeps_def)
    moreover from cons have "mirChi ?m' b" by (simp add: consistent_def)
    ultimately show ?thesis using a' by (auto simp: mirChi_def)
  qed
  have back_chi: "b \<in> set (fieldOf children ?m' a)" if "b \<in> reverseOf parents m a" for b
  proof -
    from that have "a \<in> set (fieldOf parents m b)" by (simp add: reverseOf_def)
    with repairData_tracks(3)[of m b] have "a \<in> set (fieldOf parents ?m' b)" by (auto simp: keeps_def)
    moreover from cons have "mirPar ?m' b" by (simp add: consistent_def)
    ultimately show ?thesis using a' by (auto simp: mirPar_def)
  qed
  have back_prt: "b \<in> set (fieldOf partners ?m' a)" if "b \<in> reverseOf partners m a" for b
  proof -
    from that have "a \<in> set (fieldOf partners m b)" by (simp add: reverseOf_def)
    with repairData_tracks(5)[of m b] have "a \<in> set (fieldOf partners ?m' b)" by (auto simp: keeps_def)
    moreover from cons have "mirPrt ?m' b" by (simp add: consistent_def)
    ultimately show ?thesis using a' by (auto simp: mirPrt_def)
  qed
  show "set (fieldOf parents ?m' a) = set (fieldOf parents m a) \<union> reverseOf children m a"
    using repairData_tracks(1)[of m] repairData_tracks(3)[of m a] back_par
    by (auto simp: tracksFamily_def keeps_def)
  show "set (fieldOf children ?m' a) = set (fieldOf children m a) \<union> reverseOf parents m a"
    using repairData_tracks(1)[of m] repairData_tracks(4)[of m a] back_chi
    by (auto simp: tracksFamily_def keeps_def)
  show "set (fieldOf partners ?m' a) = set (fieldOf partners m a) \<union> reverseOf partners m a"
    using repairData_tracks(2)[of m] repairData_tracks(5)[of m a] back_prt
    by (auto simp: tracksPartners_def keeps_def)
qed

lemma repairData_entry:
  assumes p: "map_of m a = Some p"
  shows "\<exists>p'. map_of (fst (repairData m)) a = Some p' \<and>
           p' = p\<lparr>parents := parents p', children := children p', partners := partners p'\<rparr> \<and>
           (\<exists>extra. parents p' = newSet (parents p) @ extra) \<and>
           (\<exists>extra. children p' = newSet (children p) @ extra) \<and>
           (\<exists>extra. partners p' = newSet (partners p) @ extra) \<and>
           set (parents p') = set (parents p) \<union> {b. \<exists>q. map_of m b = Some q \<and> a \<in> set (children q)} \<and>
           set (children p') = set (children p) \<union> {b. \<exists>q. map_of m b = Some q \<and> a \<in> set (parents q)} \<and>
           set (partners p') = set (partners p) \<union> {b. \<exists>q. map_of m b = Some q \<and> a \<in> set (partners q)}"
proof -
  let ?m' = "fst (repairData m)"
  from repairData_tracks(9)[of m] p have "map_option core (map_of ?m' a) = Some (core p)"
    by (simp add: sameCore_def)
  then obtain p' where p': "map_of ?m' a = Some p'" and c: "core p' = core p" by auto
  have f: "fieldOf g m a = g p" "fieldOf g ?m' a = g p'" for g
    using p p' by (simp_all add: fieldOf_def)
  from repairData_consistent[of m] have nd: "noDups ?m' a" by (simp add: consistent_def)
  then have d: "distinct (parents p')" "distinct (children p')" "distinct (partners p')"
    by (simp_all add: noDups_def f)
  have a: "a \<in> dom (map_of m)" using p by auto
  have e1: "\<exists>extra. parents p' = newSet (parents p) @ extra"
    using repairData_tracks(6)[of m a] d(1) by (simp add: extends_def f newSet_id)
  have e2: "\<exists>extra. children p' = newSet (children p) @ extra"
    using repairData_tracks(7)[of m a] d(2) by (simp add: extends_def f newSet_id)
  have e3: "\<exists>extra. partners p' = newSet (partners p) @ extra"
    using repairData_tracks(8)[of m a] d(3) by (simp add: extends_def f newSet_id)
  note s = repairData_sets[OF a, unfolded f reverseOf_alt]
  from p' core_eq[OF c] e1 e2 e3 s show ?thesis by blast
qed

lemma repairData_keys: "map fst (fst (repairData m)) = map fst m"
  using repairData_tracks(9)[of m] by (simp add: sameCore_def)



lemma grown_refl: "grown st st"
  unfolding grown_def
proof (intro conjI allI impI)
  fix k assume "k < length st"
  have "st ! k = (st ! k)\<lparr>parents := parents (st ! k) @ [], children := children (st ! k) @ []\<rparr>" by simp
  then show "\<exists>ep ec. st ! k = (st ! k)\<lparr>parents := parents (st ! k) @ ep, children := children (st ! k) @ ec\<rparr>"
    by blast
qed simp

lemma grown_update_parents:
  assumes g: "grown st0 st" and j: "j < length st"
  shows "grown st0 (st[j := (st ! j)\<lparr>parents := parents (st ! j) @ [x]\<rparr>])"
  unfolding grown_def
proof (intro conjI allI impI)
  show "length (st[j := (st ! j)\<lparr>parents := parents (st ! j) @ [x]\<rparr>]) = length st0"
    using g by (simp add: grown_def)
next
  fix k assume k: "k < length st0"
  with g obtain ep ec where e: "st ! k = (st0 ! k)\<lparr>parents := parents (st0 ! k) @ ep, children := children (st0 ! k) @ ec\<rparr>"
    by (auto simp: grown_def)
  show "\<exists>ep ec. st[j := (st ! j)\<lparr>parents := parents (st ! j) @ [x]\<rparr>] ! k
          = (st0 ! k)\<lparr>parents := parents (st0 ! k) @ ep, children := children (st0 ! k) @ ec\<rparr>"
  proof (cases "k = j")
    case True
    have "st[j := (st ! j)\<lparr>parents := parents (st ! j) @ [x]\<rparr>] ! k
            = (st0 ! k)\<lparr>parents := parents (st0 ! k) @ (ep @ [x]), children := children (st0 ! k) @ ec\<rparr>"
      using True j e by simp
    then show ?thesis by blast
  next
    case False
    then have "st[j := (st ! j)\<lparr>parents := parents (st ! j) @ [x]\<rparr>] ! k = st ! k" by simp
    with e show ?thesis by metis
  qed
qed

lemma grown_update_children:
  assumes g: "grown st0 st" and j: "j < length st"
  shows "grown st0 (st[j := (st ! j)\<lparr>children := children (st ! j) @ [x]\<rparr>])"
  unfolding grown_def
proof (intro conjI allI impI)
  show "length (st[j := (st ! j)\<lparr>children := children (st ! j) @ [x]\<rparr>]) = length st0"
    using g by (simp add: grown_def)
next
  fix k assume k: "k < length st0"
  with g obtain ep ec where e: "st ! k = (st0 ! k)\<lparr>parents := parents (st0 ! k) @ ep, children := children (st0 ! k) @ ec\<rparr>"
    by (auto simp: grown_def)
  show "\<exists>ep ec. st[j := (st ! j)\<lparr>children := children (st ! j) @ [x]\<rparr>] ! k
          = (st0 ! k)\<lparr>parents := parents (st0 ! k) @ ep, children := children (st0 ! k) @ ec\<rparr>"
  proof (cases "k = j")
    case True
    have "st[j := (st ! j)\<lparr>children := children (st ! j) @ [x]\<rparr>] ! k
            = (st0 ! k)\<lparr>parents := parents (st0 ! k) @ ep, children := children (st0 ! k) @ (ec @ [x])\<rparr>"
      using True j e by simp
    then show ?thesis by blast
  next
    case False
    then have "st[j := (st ! j)\<lparr>children := children (st ! j) @ [x]\<rparr>] ! k = st ! k" by simp
    with e show ?thesis by metis
  qed
qed

lemma grown_ensureParent: "grown st0 st \<Longrightarrow> grown st0 (ensureParent ix me st c)"
proof (cases "ix c")
  case None
  assume "grown st0 st"
  with None show ?thesis by (simp add: ensureParent_def)
next
  case (Some j)
  assume g: "grown st0 st"
  show ?thesis
  proof (cases "j < length st")
    case True
    from grown_update_parents[OF g True] g Some show ?thesis by (simp add: ensureParent_def)
  next
    case False
    then have "length st \<le> j" by simp
    then have "st[j := v] = st" for v by (rule list_update_beyond)
    with g Some show ?thesis by (simp add: ensureParent_def)
  qed
qed

lemma grown_ensureChild: "grown st0 st \<Longrightarrow> grown st0 (ensureChild ix me st c)"
proof (cases "ix c")
  case None
  assume "grown st0 st"
  with None show ?thesis by (simp add: ensureChild_def)
next
  case (Some j)
  assume g: "grown st0 st"
  show ?thesis
  proof (cases "j < length st")
    case True
    from grown_update_children[OF g True] g Some show ?thesis by (simp add: ensureChild_def)
  next
    case False
    then have "length st \<le> j" by simp
    then have "st[j := v] = st" for v by (rule list_update_beyond)
    with g Some show ?thesis by (simp add: ensureChild_def)
  qed
qed

lemma grown_fold:
  assumes "\<And>st x. grown st0 st \<Longrightarrow> grown st0 (f st x)"
  shows "grown st0 st \<Longrightarrow> grown st0 (foldl f st xs)"
  by (induction xs arbitrary: st) (simp_all add: assms)

lemma grown_repairPerson: "grown st0 st \<Longrightarrow> grown st0 (repairPerson ix st i)"
  unfolding repairPerson_def Let_def
  by (intro grown_fold grown_ensureChild grown_ensureParent)

lemma grown_repairLinks: "grown people (repairLinks people)"
  unfolding repairLinks_def
  by (rule grown_fold[OF grown_repairPerson grown_refl])


lemma reverseOf_toStore:
  assumes d: "distinct (map pid people)"
  shows "reverseOf f (toStore people) a = {pid q |q. q \<in> set people \<and> a \<in> set (f q)}"
proof (intro set_eqI iffI)
  fix b assume "b \<in> reverseOf f (toStore people) a"
  then obtain q where q: "map_of (toStore people) b = Some q" "a \<in> set (f q)"
    unfolding reverseOf_alt by blast
  from q(1) have "(b, q) \<in> set (toStore people)" by (rule map_of_SomeD)
  then have "q \<in> set people" "b = pid q" by (auto simp: toStore_def)
  with q(2) show "b \<in> {pid q |q. q \<in> set people \<and> a \<in> set (f q)}" by blast
next
  fix b assume "b \<in> {pid q |q. q \<in> set people \<and> a \<in> set (f q)}"
  then obtain q where q: "q \<in> set people" "b = pid q" "a \<in> set (f q)" by blast
  from q(1) obtain j where j: "j < length people" "people ! j = q" by (auto simp: in_set_conv_nth)
  from fieldOf_toStore[OF d j(1), of f] j(2) q(2) have "fieldOf f (toStore people) b = f q" by simp
  with q(3) show "b \<in> reverseOf f (toStore people) a" by (simp add: reverseOf_def)
qed

lemma repairLinks_sets:
  assumes d: "distinct (map pid people)" and k: "k < length people"
  shows "set (parents (repairLinks people ! k)) =
           set (parents (people ! k)) \<union> {pid q |q. q \<in> set people \<and> pid (people ! k) \<in> set (children q)}"
    and "set (children (repairLinks people ! k)) =
           set (children (people ! k)) \<union> {pid q |q. q \<in> set people \<and> pid (people ! k) \<in> set (parents q)}"
proof -
  let ?out = "repairLinks people"
  let ?m0 = "toStore people"
  let ?m' = "toStore ?out"
  let ?a = "pid (people ! k)"
  have ids: "map pid ?out = map pid people" by (rule repairLinks_ids)
  have d': "distinct (map pid ?out)" using d ids by simp
  have len: "length ?out = length people" using ids by (rule map_eq_imp_length_eq)
  have k': "k < length ?out" using k len by simp
  have a': "pid (?out ! k) = ?a" using ids k k' by (metis nth_map)
  have f0: "fieldOf f ?m0 ?a = f (people ! k)" for f by (rule fieldOf_toStore[OF d k])
  have f1: "fieldOf f ?m' ?a = f (?out ! k)" for f using fieldOf_toStore[OF d' k', of f] a' by simp
  have sim: "?m' = fst (foldl inlineEntry (?m0, False) (map pid people))" by (rule sim_repairLinks[OF d])
  have tr: "tracksFamily ?m0 ?m'"
    unfolding sim by (rule inline_fold_stable[OF stable_tracksFamily]) (simp add: tracksFamily_def)
  have kp: "keeps parents ?m0 ?m' b" for b
    unfolding sim by (rule inline_fold_stable[OF stable_keeps_parents]) (simp add: keeps_def)
  have kc: "keeps children ?m0 ?m' b" for b
    unfolding sim by (rule inline_fold_stable[OF stable_keeps_children]) (simp add: keeps_def)
  have adom: "?a \<in> dom (map_of ?m')"
  proof -
    have "(pid (?out ! k), ?out ! k) \<in> set ?m'" using k' by (auto simp: toStore_def)
    then have "pid (?out ! k) \<in> fst ` set ?m'" by force
    then show ?thesis by (simp add: a' dom_map_of_conv_image_fst)
  qed
  have back_par: "b \<in> set (fieldOf parents ?m' ?a)" if "b \<in> reverseOf children ?m0 ?a" for b
  proof -
    from that have "?a \<in> set (fieldOf children ?m0 b)" by (simp add: reverseOf_def)
    with kc[of b] have "?a \<in> set (fieldOf children ?m' b)" by (auto simp: keeps_def)
    with repairLinks_mirrored(2)[OF d, of b] adom show ?thesis by (auto simp: mirChi_def)
  qed
  have back_chi: "b \<in> set (fieldOf children ?m' ?a)" if "b \<in> reverseOf parents ?m0 ?a" for b
  proof -
    from that have "?a \<in> set (fieldOf parents ?m0 b)" by (simp add: reverseOf_def)
    with kp[of b] have "?a \<in> set (fieldOf parents ?m' b)" by (auto simp: keeps_def)
    with repairLinks_mirrored(1)[OF d, of b] adom show ?thesis by (auto simp: mirPar_def)
  qed
  have "set (fieldOf parents ?m' ?a) = set (fieldOf parents ?m0 ?a) \<union> reverseOf children ?m0 ?a"
    using tr kp[of ?a] back_par by (auto simp: tracksFamily_def keeps_def)
  then show "set (parents (?out ! k)) =
           set (parents (people ! k)) \<union> {pid q |q. q \<in> set people \<and> ?a \<in> set (children q)}"
    unfolding f0 f1 reverseOf_toStore[OF d] .
  have "set (fieldOf children ?m' ?a) = set (fieldOf children ?m0 ?a) \<union> reverseOf parents ?m0 ?a"
    using tr kc[of ?a] back_chi by (auto simp: tracksFamily_def keeps_def)
  then show "set (children (?out ! k)) =
           set (children (people ! k)) \<union> {pid q |q. q \<in> set people \<and> ?a \<in> set (parents q)}"
    unfolding f0 f1 reverseOf_toStore[OF d] .
qed


section \<open>What the repair achieves\<close>

text \<open>
  Claim C4 as stated fails for the pass that \<open>calculateLayout\<close> runs: it mirrors parent
  and child links only. On the array \<open>oneSided\<close> it adds \<open>a\<close> to the children of \<open>c\<close>, but
  \<open>b\<close> still does not list its partner \<open>a\<close>, and the parents of \<open>a\<close> keep their duplicate.
\<close>

theorem inline_repair_counterexample:
  "repairLinks oneSided =
     [mkPerson ''a'' [''c'', ''c''] [] [''b''],
      mkPerson ''b'' [] [] [],
      mkPerson ''c'' [] [''a''] []] \<and>
   ''b'' \<in> set (partners (repairLinks oneSided ! 0)) \<and>
   personMap (repairLinks oneSided) ''b'' = Some (repairLinks oneSided ! 1) \<and>
   ''a'' \<notin> set (partners (repairLinks oneSided ! 1)) \<and>
   \<not> distinct (parents (repairLinks oneSided ! 0))"
  by code_simp

text \<open>
  Claim C4, amended to say which pass does what. \<open>repairData\<close>, the repair of the data
  store, keeps the keys and every field of an entry other than the three lists. Each
  list of the result is the list of the input with duplicates dropped, in the order of
  first occurrence, followed by appended ids; it has no duplicate; and it holds exactly
  the ids of the input list and the keys whose reverse list named the entry in the
  input: the parents of \<open>a\<close> are the parents of \<open>a\<close> and the keys that had \<open>a\<close> as a child,
  and likewise for children and partners. So in the result each parent, child and
  partner that is a key lists the entry back. The pre-processing pass of
  \<open>calculateLayout\<close> changes every person of every array only by appending ids to the
  parents and children: partners are left as they are, and no duplicate is removed. On
  an array with unique ids, the parents of a person in the result are the parents of the
  input and the ids of the people that had the person as a child, and likewise for
  children, so that each parent and child that is in the array lists the person back.
\<close>

theorem repair_mirrors_links:
  "(\<forall>a p. map_of m a = Some p \<longrightarrow>
      (\<exists>p'. map_of (fst (repairData m)) a = Some p' \<and>
         p' = p\<lparr>parents := parents p', children := children p', partners := partners p'\<rparr> \<and>
         (\<exists>extra. parents p' = newSet (parents p) @ extra) \<and>
         (\<exists>extra. children p' = newSet (children p) @ extra) \<and>
         (\<exists>extra. partners p' = newSet (partners p) @ extra) \<and>
         set (parents p') = set (parents p) \<union> {b. \<exists>q. map_of m b = Some q \<and> a \<in> set (children q)} \<and>
         set (children p') = set (children p) \<union> {b. \<exists>q. map_of m b = Some q \<and> a \<in> set (parents q)} \<and>
         set (partners p') = set (partners p) \<union> {b. \<exists>q. map_of m b = Some q \<and> a \<in> set (partners q)})) \<and>
   map fst (fst (repairData m)) = map fst m \<and>
   (\<forall>a p. map_of (fst (repairData m)) a = Some p \<longrightarrow>
      distinct (parents p) \<and> distinct (children p) \<and> distinct (partners p) \<and>
      (\<forall>q\<in>set (parents p). \<forall>r. map_of (fst (repairData m)) q = Some r \<longrightarrow> a \<in> set (children r)) \<and>
      (\<forall>q\<in>set (children p). \<forall>r. map_of (fst (repairData m)) q = Some r \<longrightarrow> a \<in> set (parents r)) \<and>
      (\<forall>q\<in>set (partners p). \<forall>r. map_of (fst (repairData m)) q = Some r \<longrightarrow> a \<in> set (partners r))) \<and>
   length (repairLinks people) = length people \<and>
   (\<forall>k<length people. \<exists>ep ec.
      repairLinks people ! k = (people ! k)\<lparr>parents := parents (people ! k) @ ep,
                                            children := children (people ! k) @ ec\<rparr>) \<and>
   (distinct (map pid people) \<longrightarrow>
      (\<forall>k<length people.
         set (parents (repairLinks people ! k)) =
           set (parents (people ! k)) \<union> {pid q |q. q \<in> set people \<and> pid (people ! k) \<in> set (children q)} \<and>
         set (children (repairLinks people ! k)) =
           set (children (people ! k)) \<union> {pid q |q. q \<in> set people \<and> pid (people ! k) \<in> set (parents q)}) \<and>
      (\<forall>p\<in>set (repairLinks people).
         (\<forall>q\<in>set (parents p). \<forall>r. personMap (repairLinks people) q = Some r \<longrightarrow> pid p \<in> set (children r)) \<and>
         (\<forall>c\<in>set (children p). \<forall>r. personMap (repairLinks people) c = Some r \<longrightarrow> pid p \<in> set (parents r))))"
proof (intro conjI)
  show "\<forall>a p. map_of m a = Some p \<longrightarrow>
      (\<exists>p'. map_of (fst (repairData m)) a = Some p' \<and>
         p' = p\<lparr>parents := parents p', children := children p', partners := partners p'\<rparr> \<and>
         (\<exists>extra. parents p' = newSet (parents p) @ extra) \<and>
         (\<exists>extra. children p' = newSet (children p) @ extra) \<and>
         (\<exists>extra. partners p' = newSet (partners p) @ extra) \<and>
         set (parents p') = set (parents p) \<union> {b. \<exists>q. map_of m b = Some q \<and> a \<in> set (children q)} \<and>
         set (children p') = set (children p) \<union> {b. \<exists>q. map_of m b = Some q \<and> a \<in> set (parents q)} \<and>
         set (partners p') = set (partners p) \<union> {b. \<exists>q. map_of m b = Some q \<and> a \<in> set (partners q)})"
    by (intro allI impI) (rule repairData_entry)
  show "map fst (fst (repairData m)) = map fst m" by (rule repairData_keys)
  show "\<forall>a p. map_of (fst (repairData m)) a = Some p \<longrightarrow>
      distinct (parents p) \<and> distinct (children p) \<and> distinct (partners p) \<and>
      (\<forall>q\<in>set (parents p). \<forall>r. map_of (fst (repairData m)) q = Some r \<longrightarrow> a \<in> set (children r)) \<and>
      (\<forall>q\<in>set (children p). \<forall>r. map_of (fst (repairData m)) q = Some r \<longrightarrow> a \<in> set (parents r)) \<and>
      (\<forall>q\<in>set (partners p). \<forall>r. map_of (fst (repairData m)) q = Some r \<longrightarrow> a \<in> set (partners r))"
    using consistent_entry[OF repairData_consistent] by blast
  show "length (repairLinks people) = length people"
    using grown_repairLinks[of people] by (simp add: grown_def)
  show "\<forall>k<length people. \<exists>ep ec.
      repairLinks people ! k = (people ! k)\<lparr>parents := parents (people ! k) @ ep,
                                            children := children (people ! k) @ ec\<rparr>"
    using grown_repairLinks[of people] by (simp add: grown_def)
  show "distinct (map pid people) \<longrightarrow>
      (\<forall>k<length people.
         set (parents (repairLinks people ! k)) =
           set (parents (people ! k)) \<union> {pid q |q. q \<in> set people \<and> pid (people ! k) \<in> set (children q)} \<and>
         set (children (repairLinks people ! k)) =
           set (children (people ! k)) \<union> {pid q |q. q \<in> set people \<and> pid (people ! k) \<in> set (parents q)}) \<and>
      (\<forall>p\<in>set (repairLinks people).
         (\<forall>q\<in>set (parents p). \<forall>r. personMap (repairLinks people) q = Some r \<longrightarrow> pid p \<in> set (children r)) \<and>
         (\<forall>c\<in>set (children p). \<forall>r. personMap (repairLinks people) c = Some r \<longrightarrow> pid p \<in> set (parents r)))"
  proof (intro impI conjI allI ballI)
    fix k assume d: "distinct (map pid people)" and k: "k < length people"
    show "set (parents (repairLinks people ! k)) =
           set (parents (people ! k)) \<union> {pid q |q. q \<in> set people \<and> pid (people ! k) \<in> set (children q)}"
      by (rule repairLinks_sets(1)[OF d k])
    show "set (children (repairLinks people ! k)) =
           set (children (people ! k)) \<union> {pid q |q. q \<in> set people \<and> pid (people ! k) \<in> set (parents q)}"
      by (rule repairLinks_sets(2)[OF d k])
  next
    fix p q r
    assume d: "distinct (map pid people)" and p: "p \<in> set (repairLinks people)"
      and q: "q \<in> set (parents p)" and r: "personMap (repairLinks people) q = Some r"
    from repairLinks_entry[OF d p] q r show "pid p \<in> set (children r)" by blast
  next
    fix p c r
    assume d: "distinct (map pid people)" and p: "p \<in> set (repairLinks people)"
      and c: "c \<in> set (children p)" and r: "personMap (repairLinks people) c = Some r"
    from repairLinks_entry[OF d p] c r show "pid p \<in> set (parents r)" by blast
  qed
qed

theorem repair_mirrors_links_witness:
  "map_of brokenStore ''b'' = Some (mkPerson ''b'' [] [] []) \<and>
   map_of (fst (repairData brokenStore)) ''a'' = Some (mkPerson ''a'' [''c''] [] [''b'']) \<and>
   map_of (fst (repairData brokenStore)) ''b'' = Some (mkPerson ''b'' [] [] [''a'']) \<and>
   map_of (fst (repairData brokenStore)) ''c'' = Some (mkPerson ''c'' [] [''a''] []) \<and>
   set (partners (mkPerson ''b'' [] [] [''a''])) =
     set (partners (mkPerson ''b'' [] [] [])) \<union>
       {b. \<exists>q. map_of brokenStore b = Some q \<and> ''b'' \<in> set (partners q)} \<and>
   distinct (parents (mkPerson ''a'' [''c''] [] [''b''])) \<and>
   ''a'' \<in> set (partners (mkPerson ''b'' [] [] [''a''])) \<and>
   ''a'' \<in> set (children (mkPerson ''c'' [] [''a''] [])) \<and>
   (2 :: nat) < length oneSided \<and>
   (\<exists>ep ec. repairLinks oneSided ! 2 =
      (oneSided ! 2)\<lparr>parents := parents (oneSided ! 2) @ ep, children := children (oneSided ! 2) @ ec\<rparr>) \<and>
   distinct (map pid oneSided) \<and>
   set (children (repairLinks oneSided ! 2)) =
     set (children (oneSided ! 2)) \<union>
       {pid q |q. q \<in> set oneSided \<and> pid (oneSided ! 2) \<in> set (parents q)} \<and>
   repairLinks oneSided ! 0 \<in> set (repairLinks oneSided) \<and>
   ''c'' \<in> set (parents (repairLinks oneSided ! 0)) \<and>
   personMap (repairLinks oneSided) ''c'' = Some (repairLinks oneSided ! 2) \<and>
   pid (repairLinks oneSided ! 0) \<in> set (children (repairLinks oneSided ! 2))"
proof -
  note T = repair_mirrors_links[of brokenStore oneSided]
  have b0: "map_of brokenStore ''b'' = Some (mkPerson ''b'' [] [] [])" by code_simp
  have a: "map_of (fst (repairData brokenStore)) ''a'' = Some (mkPerson ''a'' [''c''] [] [''b''])"
    and b: "map_of (fst (repairData brokenStore)) ''b'' = Some (mkPerson ''b'' [] [] [''a''])"
    and c: "map_of (fst (repairData brokenStore)) ''c'' = Some (mkPerson ''c'' [] [''a''] [])"
    by code_simp+
  from T[THEN conjunct1, rule_format, OF b0] b
  have 0: "set (partners (mkPerson ''b'' [] [] [''a''])) =
     set (partners (mkPerson ''b'' [] [] [])) \<union>
       {b. \<exists>q. map_of brokenStore b = Some q \<and> ''b'' \<in> set (partners q)}"
    by auto
  have pa: "''b'' \<in> set (partners (mkPerson ''a'' [''c''] [] [''b'']))"
    and pc: "''c'' \<in> set (parents (mkPerson ''a'' [''c''] [] [''b'']))"
    by (simp_all add: mkPerson_def)
  note store = T[THEN conjunct2, THEN conjunct2, THEN conjunct1, rule_format, OF a]
  have 1: "distinct (parents (mkPerson ''a'' [''c''] [] [''b'']))" using store by blast
  have 2: "''a'' \<in> set (partners (mkPerson ''b'' [] [] [''a'']))" using store pa b by blast
  have 3: "''a'' \<in> set (children (mkPerson ''c'' [] [''a''] []))" using store pc c by blast
  have k: "(2 :: nat) < length oneSided" by (simp add: oneSided_def)
  note grow = T[THEN conjunct2, THEN conjunct2, THEN conjunct2, THEN conjunct2, THEN conjunct1, rule_format, OF k]
  have d: "distinct (map pid oneSided)" by code_simp
  note inl = T[THEN conjunct2, THEN conjunct2, THEN conjunct2, THEN conjunct2, THEN conjunct2, rule_format, OF d]
  have 5: "set (children (repairLinks oneSided ! 2)) =
     set (children (oneSided ! 2)) \<union>
       {pid q |q. q \<in> set oneSided \<and> pid (oneSided ! 2) \<in> set (parents q)}"
    using inl[THEN conjunct1, rule_format, OF k] by blast
  have m: "repairLinks oneSided ! 0 \<in> set (repairLinks oneSided)" by code_simp
  have q: "''c'' \<in> set (parents (repairLinks oneSided ! 0))" by code_simp
  have r: "personMap (repairLinks oneSided) ''c'' = Some (repairLinks oneSided ! 2)" by code_simp
  have 4: "pid (repairLinks oneSided ! 0) \<in> set (children (repairLinks oneSided ! 2))"
    using inl[THEN conjunct2, rule_format, OF m] q r by blast
  from b0 a b c 0 1 2 3 k grow d 5 m q r 4 show ?thesis by blast
qed

text \<open>
  Claim C5 as stated, for every input person list, fails for the pass that
  \<open>calculateLayout\<close> runs: in an array with a repeated id \<^verbatim>\<open>personMap.get\<close> returns the last
  object with that id. On \<open>duplicateIds\<close> the first run adds \<open>q\<close> to the children of \<open>p\<close>,
  and the second run, visiting \<open>p\<close>, then adds \<open>p\<close> to the parents of the last \<open>q\<close>.
\<close>

theorem repair_twice_counterexample:
  "repairLinks duplicateIds =
     [mkPerson ''p'' [] [''q''] [],
      mkPerson ''q'' [''p''] [] [],
      mkPerson ''q'' [] [] []] \<and>
   repairLinks (repairLinks duplicateIds) =
     [mkPerson ''p'' [] [''q''] [],
      mkPerson ''q'' [''p''] [] [],
      mkPerson ''q'' [''p''] [] []] \<and>
   repairLinks (repairLinks duplicateIds) \<noteq> repairLinks duplicateIds"
  by code_simp

text \<open>
  Claim C5, amended with the proviso that ids are unique. A second run of the repair
  changes nothing: \<open>repairData\<close> on its own output returns the same store with the flag
  \<open>changed\<close> false, for every store, and the pre-processing pass of \<open>calculateLayout\<close>, on
  a list with unique ids, returns its own output unchanged.
\<close>

theorem repair_idempotent:
  "repairData (fst (repairData m)) = (fst (repairData m), False) \<and>
   (distinct (map pid people) \<longrightarrow> repairLinks (repairLinks people) = repairLinks people)"
  using repairData_fixed[OF repairData_consistent] repairLinks_idem by blast

theorem repair_idempotent_witness:
  "repairData (fst (repairData brokenStore)) = (fst (repairData brokenStore), False) \<and>
   snd (repairData brokenStore) = True \<and>
   distinct (map pid oneSided) \<and>
   repairLinks oneSided \<noteq> oneSided \<and>
   repairLinks (repairLinks oneSided) = repairLinks oneSided"
proof -
  have d: "distinct (map pid oneSided)" by code_simp
  have c: "snd (repairData brokenStore) = True" by code_simp
  have n: "repairLinks oneSided \<noteq> oneSided" by code_simp
  from repair_idempotent[of brokenStore oneSided] d c n show ?thesis by blast
qed


lemma overlap_sym: "overlap a b \<longleftrightarrow> overlap b a"
  by (auto simp: overlap_def collides_def abs_minus_commute)




lemma apart_sym: "apart A B \<Longrightarrow> apart B A"
  using overlap_sym by (auto simp: apart_def)







































section \<open>No two placed people overlap\<close>



end
